theory Spec2Isabelle
  imports Complex_Main
begin

section \<open>Data model of sitemap.go\<close>

text \<open>
  The structs of the package. The \<open>XMLName\<close> fields only carry the element name for the
  XML encoder and never change, so they are left out. Go strings are byte strings:
  \<^typ>\<open>string\<close> (a list of 8-bit characters).
\<close>

record SitemapURL =
  Loc :: string
  LastMod :: string
  ChangeFreq :: string
  Priority :: string

record SitemapOptions =
  MaxFileSize :: int
  MaxURLs :: int
  Dir :: string
  BaseURL :: string
  URLs :: "SitemapURL list"
  Stylesheet :: string

definition maxURLsPerSitemap :: int where
  "maxURLsPerSitemap = 33333"

section \<open>The parts of package time that AddURL uses\<close>

text \<open>
  A \<open>time.Time\<close> in UTC: its calendar date and the nanoseconds elapsed since midnight.
\<close>

record Time =
  Year :: int
  Month :: nat
  Day :: nat
  Nanos :: nat

text \<open>\<open>isDigit(s, i)\<close> of package time: position \<open>i\<close> exists and holds a decimal digit.\<close>

definition isDigit :: "string \<Rightarrow> nat \<Rightarrow> bool" where
  "isDigit s i = (i < length s \<and> 48 \<le> (of_char (s ! i) :: nat) \<and> (of_char (s ! i) :: nat) \<le> 57)"

definition digitVal :: "char \<Rightarrow> nat" where
  "digitVal c = of_char c - 48"

text \<open>
  \<open>getnum(s, fixed)\<close>: a one- or two-digit number at the front of \<open>s\<close>; with \<open>fixed\<close>
  both digits are required. Returns the number and the rest of the string.
\<close>

definition getnum :: "string \<Rightarrow> bool \<Rightarrow> (nat \<times> string) option" where
  "getnum s fixed =
     (if \<not> isDigit s 0 then None
      else if \<not> isDigit s 1 then
        (if fixed then None else Some (digitVal (s ! 0), drop 1 s))
      else Some (digitVal (s ! 0) * 10 + digitVal (s ! 1), drop 2 s))"

text \<open>
  \<open>leadingInt\<close> consumes the leading digits of a string; it fails when the number leaves
  the 63-bit range. \<open>atoi\<close> accepts an optional sign and requires that nothing is left.
\<close>

fun leadingInt :: "nat \<Rightarrow> string \<Rightarrow> (nat \<times> string) option" where
  "leadingInt x [] = Some (x, [])"
| "leadingInt x (c # cs) =
     (if (of_char c :: nat) < 48 \<or> 57 < (of_char c :: nat) then Some (x, c # cs)
      else if x > 2 ^ 63 div 10 then None
      else if x * 10 + digitVal c > 2 ^ 63 then None
      else leadingInt (x * 10 + digitVal c) cs)"

definition atoi :: "string \<Rightarrow> int option" where
  "atoi s =
     (let neg = (s \<noteq> [] \<and> hd s = CHR ''-'');
          s' = (if s \<noteq> [] \<and> (hd s = CHR ''-'' \<or> hd s = CHR ''+'') then tl s else s)
      in case leadingInt 0 s' of
           None \<Rightarrow> None
         | Some (q, rem) \<Rightarrow>
             if rem \<noteq> [] then None else Some (if neg then - int q else int q))"

text \<open>\<open>skip(value, prefix)\<close> for the literal \<open>"-"\<close> of the layout.\<close>

definition skipDash :: "string \<Rightarrow> string option" where
  "skipDash v = (case v of [] \<Rightarrow> None | c # r \<Rightarrow> if c = CHR ''-'' then Some r else None)"

definition isLeap :: "int \<Rightarrow> bool" where
  "isLeap y = (y mod 4 = 0 \<and> (y mod 100 \<noteq> 0 \<or> y mod 400 = 0))"

definition daysIn :: "nat \<Rightarrow> int \<Rightarrow> nat" where
  "daysIn m y =
     (if m = 2 \<and> isLeap y then 29
      else [31, 28, 31, 30, 31, 30, 31, 31, 30, 31, 30, 31] ! (m - 1))"

text \<open>
  \<open>time.Parse("2006-01-02", value)\<close>: the layout is a four-digit year, a dash, a
  two-digit month, a dash and a two-digit day, with nothing after it. The month is range
  checked when it is read, the day once the whole value is consumed. The result is
  midnight UTC of that day; \<open>None\<close> stands for the returned error.
\<close>

definition time_Parse :: "string \<Rightarrow> Time option" where
  "time_Parse v0 =
     (if length v0 < 4 \<or> \<not> isDigit v0 0 then None
      else case atoi (take 4 v0) of
        None \<Rightarrow> None
      | Some y \<Rightarrow>
     (case skipDash (drop 4 v0) of
        None \<Rightarrow> None
      | Some v2 \<Rightarrow>
     (case getnum v2 True of
        None \<Rightarrow> None
      | Some (m, v3) \<Rightarrow>
          if m \<le> 0 \<or> 12 < m then None
          else
     (case skipDash v3 of
        None \<Rightarrow> None
      | Some v4 \<Rightarrow>
     (case getnum v4 True of
        None \<Rightarrow> None
      | Some (d, v5) \<Rightarrow>
          if v5 \<noteq> [] then None
          else if d < 1 \<or> daysIn m y < d then None
          else Some \<lparr>Year = y, Month = m, Day = d, Nanos = 0\<rparr>)))))"

text \<open>\<open>t.After(u)\<close>: the instant \<open>t\<close> is later than \<open>u\<close>.\<close>

definition After :: "Time \<Rightarrow> Time \<Rightarrow> bool" where
  "After t u =
     (Year t > Year u \<or>
      (Year t = Year u \<and>
        (Month t > Month u \<or>
         (Month t = Month u \<and>
           (Day t > Day u \<or> (Day t = Day u \<and> Nanos t > Nanos u))))))"

text \<open>
  \<open>appendInt(b, x, width)\<close>: the decimal digits of \<open>x\<close>, zero-padded to \<open>width\<close>, after
  a minus sign when \<open>x\<close> is negative.
\<close>

definition digitChar :: "nat \<Rightarrow> char" where
  "digitChar n = ''0123456789'' ! n"

fun decimal :: "nat \<Rightarrow> string" where
  "decimal n = (if n < 10 then [digitChar n] else decimal (n div 10) @ [digitChar (n mod 10)])"

declare decimal.simps [simp del]

definition appendInt :: "int \<Rightarrow> nat \<Rightarrow> string" where
  "appendInt x width =
     (let ds = decimal (nat \<bar>x\<bar>)
      in (if x < 0 then ''-'' else []) @ replicate (width - length ds) (CHR ''0'') @ ds)"

text \<open>\<open>t.Format("2006-01-02")\<close>.\<close>

definition Format :: "Time \<Rightarrow> string" where
  "Format t = appendInt (Year t) 4 @ ''-'' @ appendInt (int (Month t)) 2 @ ''-'' @ appendInt (int (Day t)) 2"

section \<open>Collecting entries\<close>

definition trimRightSlash :: "string \<Rightarrow> string" where
  "trimRightSlash s = rev (dropWhile (\<lambda>c. c = CHR ''/'') (rev s))"

definition NewSitemapOptions :: "string \<Rightarrow> string \<Rightarrow> SitemapOptions" where
  "NewSitemapOptions dir baseURL =
     \<lparr>MaxFileSize = 52428800, MaxURLs = maxURLsPerSitemap, Dir = dir,
      BaseURL = trimRightSlash baseURL, URLs = [], Stylesheet = []\<rparr>"

text \<open>
  \<open>AddURL\<close> reads the clock with \<open>time.Now().UTC()\<close>; the reading is the parameter
  \<open>now\<close>. The entry is passed by value, so only the stored copy is changed.
\<close>

definition AddURL :: "Time \<Rightarrow> SitemapOptions \<Rightarrow> SitemapURL \<Rightarrow> SitemapOptions" where
  "AddURL now s url =
     (let url' =
        (if LastMod url = [] then url\<lparr>LastMod := Format now\<rparr>
         else (case time_Parse (LastMod url) of
                 None \<Rightarrow> url\<lparr>LastMod := Format now\<rparr>
               | Some timeLastMod \<Rightarrow>
                   if After timeLastMod now then url\<lparr>LastMod := Format now\<rparr> else url))
      in s\<lparr>URLs := URLs s @ [url']\<rparr>)"

text \<open>\<open>AddURLs\<close> calls \<open>AddURL\<close> per element; \<open>clock k\<close> is the clock reading of call \<open>k\<close>.\<close>

fun AddURLs :: "(nat \<Rightarrow> Time) \<Rightarrow> SitemapOptions \<Rightarrow> SitemapURL list \<Rightarrow> SitemapOptions" where
  "AddURLs clock s [] = s"
| "AddURLs clock s (url # urls) = AddURLs (\<lambda>k. clock (Suc k)) (AddURL (clock 0) s url) urls"


section \<open>The outside world\<close>

text \<open>
  Every way \<open>Write\<close> can fail. The first group are the errors of generation, the second
  the errors of the validation that follows it.
\<close>

datatype error =
    UrlError string
  | MkdirError string
  | MarshalError
  | WriteError string
  | RuntimePanic
  | ReadError string
  | SchemaParseError
  | XMLParseError string
  | SchemaViolation string
  | IndexReadError
  | UnmarshalError
  | InvalidSitemapURL string

fun isValidationError :: "error \<Rightarrow> bool" where
  "isValidationError (ReadError p) = True"
| "isValidationError SchemaParseError = True"
| "isValidationError (XMLParseError p) = True"
| "isValidationError (SchemaViolation p) = True"
| "isValidationError IndexReadError = True"
| "isValidationError UnmarshalError = True"
| "isValidationError (InvalidSitemapURL l) = True"
| "isValidationError _ = False"

text \<open>The remaining structs, handed to and returned by the XML encoder.\<close>

record URLSet =
  us_Xmlns :: string
  us_URLs :: "SitemapURL list"

record Sitemap =
  sm_Loc :: string
  sm_LastMod :: string

record SitemapIndex =
  ix_Xmlns :: string
  ix_Sitemaps :: "Sitemap list"

text \<open>The two schema constants of the package; only their identity matters here.\<close>

datatype schema = sitemapXSD | sitemapIndexXSD

text \<open>
  Package \<open>net/url\<close> as the code uses it: \<open>url.Parse\<close> (\<open>None\<close> is its error),
  \<open>ResolveReference\<close>, \<open>String\<close> and the \<open>Path\<close> field, over the library's URL
  values \<open>'u\<close>.
\<close>

record 'u URLPkg =
  url_Parse :: "string \<Rightarrow> 'u option"
  ResolveReference :: "'u \<Rightarrow> 'u \<Rightarrow> 'u"
  url_String :: "'u \<Rightarrow> string"
  url_Path :: "'u \<Rightarrow> string"

text \<open>
  The other collaborators: the file system (which directories are missing, which calls
  fail, what the files held before), package \<open>path\<close>, the XML encoder and decoder of
  \<open>encoding/xml\<close>, and the schema validator of \<open>libxml2\<close>.
\<close>

record Env =
  dirMissing :: "string \<Rightarrow> bool"
  mkdirFails :: "string \<Rightarrow> bool"
  writeFails :: "string \<Rightarrow> bool"
  readFails :: "string \<Rightarrow> bool"
  disk :: "string \<Rightarrow> string option"
  path_Join :: "string \<Rightarrow> string \<Rightarrow> string"
  path_Base :: "string \<Rightarrow> string"
  MarshalURLSet :: "URLSet \<Rightarrow> string option"
  MarshalIndex :: "SitemapIndex \<Rightarrow> string option"
  UnmarshalIndex :: "string \<Rightarrow> SitemapIndex option"
  xsd_Parse :: "schema \<Rightarrow> bool"
  libxml2_Parse :: "string \<Rightarrow> bool"
  schema_Validate :: "schema \<Rightarrow> string \<Rightarrow> bool"

text \<open>
  What the calls leave behind: the directories created, the files written (path and
  bytes, in the order of the calls to \<open>os.WriteFile\<close>) and the paths read (in the order of
  the calls to \<open>os.ReadFile\<close>).
\<close>

record World =
  dirs :: "string list"
  written :: "(string \<times> string) list"
  reads :: "string list"

definition os_MkdirAll :: "Env \<Rightarrow> World \<Rightarrow> string \<Rightarrow> error option \<times> World" where
  "os_MkdirAll E w d =
     (if mkdirFails E d then (Some (MkdirError d), w) else (None, w\<lparr>dirs := dirs w @ [d]\<rparr>))"

definition os_WriteFile :: "Env \<Rightarrow> World \<Rightarrow> string \<Rightarrow> string \<Rightarrow> error option \<times> World" where
  "os_WriteFile E w p b =
     (if writeFails E p then (Some (WriteError p), w)
      else (None, w\<lparr>written := written w @ [(p, b)]\<rparr>))"

text \<open>A file holds what was last written to it, or else what the disk held before.\<close>

definition fileContent :: "Env \<Rightarrow> World \<Rightarrow> string \<Rightarrow> string option" where
  "fileContent E w p =
     (case map_of (rev (written w)) p of Some b \<Rightarrow> Some b | None \<Rightarrow> disk E p)"

definition os_ReadFile :: "Env \<Rightarrow> World \<Rightarrow> string \<Rightarrow> string option \<times> World" where
  "os_ReadFile E w p =
     (if readFails E p then None else fileContent E w p, w\<lparr>reads := reads w @ [p]\<rparr>)"

section \<open>URL resolution\<close>

definition resolveURL :: "'u URLPkg \<Rightarrow> SitemapOptions \<Rightarrow> string \<Rightarrow> error + string" where
  "resolveURL U s loc =
     (case url_Parse U (BaseURL s) of
        None \<Rightarrow> Inl (UrlError (BaseURL s))
      | Some base \<Rightarrow>
          (case url_Parse U loc of
             None \<Rightarrow> Inl (UrlError loc)
           | Some ref \<Rightarrow> Inr (url_String U (ResolveReference U base ref))))"

definition resolveSitemapURL :: "'u URLPkg \<Rightarrow> string \<Rightarrow> string \<Rightarrow> error + string" where
  "resolveSitemapURL U baseSitemapURL sitemapName =
     (case url_Parse U (trimRightSlash baseSitemapURL @ ''/'') of
        None \<Rightarrow> Inl (UrlError (trimRightSlash baseSitemapURL @ ''/''))
      | Some base \<Rightarrow>
          (case url_Parse U sitemapName of
             None \<Rightarrow> Inl (UrlError sitemapName)
           | Some ref \<Rightarrow> Inr (url_String U (ResolveReference U base ref))))"

section \<open>Writing the files\<close>

definition sitemapsNamespace :: string where
  "sitemapsNamespace = ''http://www.sitemaps.org/schemas/sitemap/0.9''"

text \<open>\<open>xml.Header\<close>, and the processing instruction that \<open>fmt.Sprintf\<close> builds.\<close>

definition xml_Header :: string where
  \<open>xml_Header = ''<?xml version="1.0" encoding="UTF-8"?>'' @ [CHR 0x0A]\<close>

definition stylesheetPI :: "string \<Rightarrow> string" where
  \<open>stylesheetPI href = ''<?xml-stylesheet type="text/xsl" href="'' @ href @ ''"?>''\<close>

definition writeSitemapFile ::
  "Env \<Rightarrow> SitemapOptions \<Rightarrow> World \<Rightarrow> string \<Rightarrow> SitemapURL list \<Rightarrow> error option \<times> World" where
  "writeSitemapFile E s w filename urls =
     (let urlSet = \<lparr>us_Xmlns = sitemapsNamespace, us_URLs = urls\<rparr>
      in case MarshalURLSet E urlSet of
           None \<Rightarrow> (Some MarshalError, w)
         | Some data \<Rightarrow>
             (let buffer =
                    xml_Header @
                    (if Stylesheet s \<noteq> [] then stylesheetPI (Stylesheet s) @ [CHR 0x0A] else []) @
                    data;
                  filePath = path_Join E (Dir s) filename
              in os_WriteFile E w filePath buffer))"

text \<open>
  Go's integer division truncates towards zero and panics on a zero divisor; a slice
  expression \<open>xs[lo:hi]\<close> panics unless \<open>0 \<le> lo \<le> hi \<le> len\<close> (the capacity of the
  slice is taken to be its length). \<open>Sprintf_d\<close> is \<open>fmt.Sprintf("%d", x)\<close>.
\<close>

definition goDiv :: "int \<Rightarrow> int \<Rightarrow> int option" where
  "goDiv a b = (if b = 0 then None else Some (sgn a * sgn b * (\<bar>a\<bar> div \<bar>b\<bar>)))"

definition goSlice :: "'a list \<Rightarrow> int \<Rightarrow> int \<Rightarrow> 'a list option" where
  "goSlice xs lo hi =
     (if 0 \<le> lo \<and> lo \<le> hi \<and> hi \<le> int (length xs)
      then Some (take (nat (hi - lo)) (drop (nat lo) xs)) else None)"

definition Sprintf_d :: "int \<Rightarrow> string" where
  "Sprintf_d x = (if x < 0 then ''-'' @ decimal (nat (- x)) else decimal (nat x))"

text \<open>
  The loop of \<open>writeSitemapIndex\<close>, from counter \<open>i\<close> on: \<open>sitemaps\<close> are the index
  entries collected so far. \<open>now\<close> is the reading of the clock.
\<close>

function writeShards ::
  "'u URLPkg \<Rightarrow> Env \<Rightarrow> Time \<Rightarrow> SitemapOptions \<Rightarrow> string \<Rightarrow> int \<Rightarrow> int \<Rightarrow> Sitemap list \<Rightarrow> World
     \<Rightarrow> (error + Sitemap list) \<times> World" where
  "writeShards U E now s baseSitemapURL fileCount i sitemaps w =
     (if i < fileCount then
        (let sitemapName = ''sitemap_'' @ Sprintf_d (i + 1) @ ''.xml'';
             start = i * MaxURLs s;
             end0 = start + MaxURLs s;
             end1 = (if end0 > int (length (URLs s)) then int (length (URLs s)) else end0)
         in case goSlice (URLs s) start end1 of
              None \<Rightarrow> (Inl RuntimePanic, w)
            | Some urlsSlice \<Rightarrow>
                (case writeSitemapFile E s w sitemapName urlsSlice of
                   (Some err, w') \<Rightarrow> (Inl err, w')
                 | (None, w') \<Rightarrow>
                     (case resolveSitemapURL U baseSitemapURL sitemapName of
                        Inl err \<Rightarrow> (Inl err, w')
                      | Inr sitemapURL \<Rightarrow>
                          writeShards U E now s baseSitemapURL fileCount (i + 1)
                            (sitemaps @ [\<lparr>sm_Loc = sitemapURL, sm_LastMod = Format now\<rparr>]) w')))
      else (Inr sitemaps, w))"
  by pat_completeness auto
termination
  by (relation "measure (\<lambda>(U, E, now, s, b, fileCount, i, sitemaps, w). nat (fileCount - i))") auto

declare writeShards.simps [simp del]

definition writeSitemapIndex ::
  "'u URLPkg \<Rightarrow> Env \<Rightarrow> Time \<Rightarrow> SitemapOptions \<Rightarrow> World \<Rightarrow> string \<Rightarrow> error option \<times> World" where
  "writeSitemapIndex U E now s w baseSitemapURL =
     (case goDiv (int (length (URLs s)) + MaxURLs s - 1) (MaxURLs s) of
        None \<Rightarrow> (Some RuntimePanic, w)
      | Some fileCount \<Rightarrow>
          (case writeShards U E now s baseSitemapURL fileCount 0 [] w of
             (Inl err, w') \<Rightarrow> (Some err, w')
           | (Inr sitemaps, w') \<Rightarrow>
               (let index = \<lparr>ix_Xmlns = sitemapsNamespace, ix_Sitemaps = sitemaps\<rparr>
                in case MarshalIndex E index of
                     None \<Rightarrow> (Some MarshalError, w')
                   | Some data \<Rightarrow>
                       (let buffer =
                              xml_Header @
                              (if Stylesheet s \<noteq> [] then stylesheetPI (Stylesheet s) @ [CHR 0x0A]
                               else []) @
                              data;
                            filePath = path_Join E (Dir s) ''sitemap_index.xml''
                        in os_WriteFile E w' filePath buffer))))"

section \<open>Validation\<close>

definition validateXMLFile :: "Env \<Rightarrow> World \<Rightarrow> string \<Rightarrow> bool \<Rightarrow> error option \<times> World" where
  "validateXMLFile E w filePath isIndex =
     (case os_ReadFile E w filePath of
        (None, w') \<Rightarrow> (Some (ReadError filePath), w')
      | (Some data, w') \<Rightarrow>
          (let schemaData = (if isIndex then sitemapIndexXSD else sitemapXSD)
           in if \<not> xsd_Parse E schemaData then (Some SchemaParseError, w')
              else if \<not> libxml2_Parse E data then (Some (XMLParseError filePath), w')
              else if \<not> schema_Validate E schemaData data then (Some (SchemaViolation filePath), w')
              else (None, w')))"

text \<open>The loop of \<open>validateSitemapIndexAndFiles\<close> over the entries of the parsed index.\<close>

fun validateEach ::
  "'u URLPkg \<Rightarrow> Env \<Rightarrow> SitemapOptions \<Rightarrow> World \<Rightarrow> Sitemap list \<Rightarrow> error option \<times> World" where
  "validateEach U E s w [] = (None, w)"
| "validateEach U E s w (sitemap # rest) =
     (case url_Parse U (sm_Loc sitemap) of
        None \<Rightarrow> (Some (InvalidSitemapURL (sm_Loc sitemap)), w)
      | Some sitemapURL \<Rightarrow>
          (let sitemapFile = path_Base E (url_Path U sitemapURL);
               sitemapFilePath = path_Join E (Dir s) sitemapFile
           in case validateXMLFile E w sitemapFilePath False of
                (Some err, w') \<Rightarrow> (Some err, w')
              | (None, w') \<Rightarrow> validateEach U E s w' rest))"

definition validateSitemapIndexAndFiles ::
  "'u URLPkg \<Rightarrow> Env \<Rightarrow> SitemapOptions \<Rightarrow> World \<Rightarrow> error option \<times> World" where
  "validateSitemapIndexAndFiles U E s w =
     (let indexFilePath = path_Join E (Dir s) ''sitemap_index.xml''
      in case validateXMLFile E w indexFilePath True of
           (Some err, w1) \<Rightarrow> (Some err, w1)
         | (None, w1) \<Rightarrow>
             (case os_ReadFile E w1 indexFilePath of
                (None, w2) \<Rightarrow> (Some IndexReadError, w2)
              | (Some indexData, w2) \<Rightarrow>
                  (case UnmarshalIndex E indexData of
                     None \<Rightarrow> (Some UnmarshalError, w2)
                   | Some index \<Rightarrow> validateEach U E s w2 (ix_Sitemaps index))))"

section \<open>Write\<close>

text \<open>
  The loop "Prepare URLs": each location is replaced by its resolution, in place. At the
  first location that does not resolve the loop returns the error; the entries before it
  stay replaced.
\<close>

fun prepareURLs ::
  "'u URLPkg \<Rightarrow> SitemapOptions \<Rightarrow> SitemapURL list \<Rightarrow> error option \<times> SitemapURL list" where
  "prepareURLs U s [] = (None, [])"
| "prepareURLs U s (u # us) =
     (case resolveURL U s (Loc u) of
        Inl err \<Rightarrow> (Some err, u # us)
      | Inr fullURL \<Rightarrow>
          (case prepareURLs U s us of (r, us') \<Rightarrow> (r, u\<lparr>Loc := fullURL\<rparr> # us')))"

definition Write ::
  "'u URLPkg \<Rightarrow> Env \<Rightarrow> Time \<Rightarrow> SitemapOptions \<Rightarrow> World \<Rightarrow> string \<Rightarrow> string
     \<Rightarrow> error option \<times> SitemapOptions \<times> World" where
  "Write U E now s w baseSitemapURL stylesheetURL =
     (let s1 = s\<lparr>Stylesheet := stylesheetURL\<rparr>;
          (mk, w1) = (if dirMissing E (Dir s1) then os_MkdirAll E w (Dir s1) else (None, w))
      in case mk of
           Some err \<Rightarrow> (Some err, s1, w1)
         | None \<Rightarrow>
             (case prepareURLs U s1 (URLs s1) of
                (Some err, urls') \<Rightarrow> (Some err, s1\<lparr>URLs := urls'\<rparr>, w1)
              | (None, urls') \<Rightarrow>
                  (let s2 = s1\<lparr>URLs := urls'\<rparr>
                   in if int (length (URLs s2)) \<le> MaxURLs s2 then
                        (case writeSitemapFile E s2 w1 ''sitemap.xml'' (URLs s2) of
                           (Some err, w2) \<Rightarrow> (Some err, s2, w2)
                         | (None, w2) \<Rightarrow>
                             (case validateXMLFile E w2 (path_Join E (Dir s2) ''sitemap.xml'') False of
                                (r, w3) \<Rightarrow> (r, s2, w3)))
                      else
                        (case writeSitemapIndex U E now s2 w1 baseSitemapURL of
                           (Some err, w2) \<Rightarrow> (Some err, s2, w2)
                         | (None, w2) \<Rightarrow>
                             (case validateSitemapIndexAndFiles U E s2 w2 of
                                (r, w3) \<Rightarrow> (r, s2, w3))))))"


section \<open>Notions of the specification\<close>

text \<open>
  A string is a calendar date when it reads \<open>YYYY-MM-DD\<close>, with a month from 1 to 12
  and a day that the month has in that year; \<open>calendar_date\<close> gives the date it denotes.
  These follow the specification's words, not the parser above.
\<close>

definition isDigitChar :: "char \<Rightarrow> bool" where
  "isDigitChar c = (48 \<le> (of_char c :: nat) \<and> (of_char c :: nat) \<le> 57)"

fun calendar_date :: "string \<Rightarrow> (int \<times> nat \<times> nat) option" where
  "calendar_date [y1, y2, y3, y4, s1, m1, m2, s2, d1, d2] =
     (let y = int (digitVal y1 * 1000 + digitVal y2 * 100 + digitVal y3 * 10 + digitVal y4);
          m = digitVal m1 * 10 + digitVal m2;
          d = digitVal d1 * 10 + digitVal d2
      in if isDigitChar y1 \<and> isDigitChar y2 \<and> isDigitChar y3 \<and> isDigitChar y4 \<and>
            s1 = CHR ''-'' \<and> isDigitChar m1 \<and> isDigitChar m2 \<and>
            s2 = CHR ''-'' \<and> isDigitChar d1 \<and> isDigitChar d2 \<and>
            1 \<le> m \<and> m \<le> 12 \<and> 1 \<le> d \<and> d \<le> daysIn m y
         then Some (y, m, d) else None)"
| "calendar_date _ = None"

text \<open>The date \<open>d\<close> lies strictly after the day of the instant \<open>today\<close>.\<close>

definition dateAfter :: "int \<times> nat \<times> nat \<Rightarrow> Time \<Rightarrow> bool" where
  "dateAfter d today =
     (case d of (y, m, dd) \<Rightarrow>
        y > Year today \<or>
        (y = Year today \<and> (m > Month today \<or> (m = Month today \<and> dd > Day today))))"

text \<open>
  The specification's rule for \<open>lastModified\<close>: today's date when the value is absent,
  is no calendar date, or is a date after today; otherwise the value as supplied.
\<close>

definition spec_lastModified :: "Time \<Rightarrow> string \<Rightarrow> string" where
  "spec_lastModified now lastMod =
     (if lastMod = [] then Format now
      else case calendar_date lastMod of
             None \<Rightarrow> Format now
           | Some d \<Rightarrow> if dateAfter d now then Format now else lastMod)"

definition sameDay :: "Time \<Rightarrow> Time \<Rightarrow> bool" where
  "sameDay t u = (Year t = Year u \<and> Month t = Month u \<and> Day t = Day u)"

text \<open>
  The layout of the output. Shard \<open>k\<close> (counted from 0) of a list holds its entries at
  positions \<open>k * m\<close> up to \<open>min ((k + 1) * m) n\<close>; the file of shard \<open>k\<close> is named
  \<open>sitemap_(k+1).xml\<close>. A document is the XML declaration, the stylesheet instruction on
  a line of its own when a stylesheet is configured, and the encoded root element.
\<close>

definition shardName :: "nat \<Rightarrow> string" where
  "shardName k = ''sitemap_'' @ decimal k @ ''.xml''"

definition shard :: "nat \<Rightarrow> 'a list \<Rightarrow> nat \<Rightarrow> 'a list" where
  "shard m xs k = take (min ((k + 1) * m) (length xs) - k * m) (drop (k * m) xs)"

definition document :: "string \<Rightarrow> string \<Rightarrow> string" where
  "document stylesheet rootElem =
     xml_Header @ (if stylesheet \<noteq> [] then stylesheetPI stylesheet @ [CHR 0x0A] else []) @ rootElem"

definition shardFile :: "Env \<Rightarrow> SitemapOptions \<Rightarrow> nat \<Rightarrow> string \<times> string" where
  "shardFile E s k =
     (path_Join E (Dir s) (shardName (Suc k)),
      document (Stylesheet s)
        (the (MarshalURLSet E \<lparr>us_Xmlns = sitemapsNamespace,
                us_URLs = shard (nat (MaxURLs s)) (URLs s) k\<rparr>)))"

definition generated :: "error option \<Rightarrow> bool" where
  "generated r = (case r of None \<Rightarrow> True | Some e \<Rightarrow> isValidationError e)"

definition indexEntry :: "'u URLPkg \<Rightarrow> Time \<Rightarrow> string \<Rightarrow> nat \<Rightarrow> Sitemap" where
  "indexEntry U now baseSitemapURL k =
     \<lparr>sm_Loc = projr (resolveSitemapURL U baseSitemapURL (shardName (Suc k))),
      sm_LastMod = Format now\<rparr>"

text \<open>
  Line \<open>k\<close> of a text (counted from 0, lines ending at a line feed); the XML declaration
  that \<open>xml.Header\<close> starts with; the files written between two states of the world; and
  what it means for a text to be a root element that the encoder returned.
\<close>

fun line :: "nat \<Rightarrow> string \<Rightarrow> string" where
  "line 0 doc = takeWhile (\<lambda>c. c \<noteq> CHR 0x0A) doc"
| "line (Suc k) doc = line k (tl (dropWhile (\<lambda>c. c \<noteq> CHR 0x0A) doc))"

definition xmlDeclaration :: string where
  \<open>xmlDeclaration = ''<?xml version="1.0" encoding="UTF-8"?>''\<close>

definition encoded :: "Env \<Rightarrow> string \<Rightarrow> bool" where
  "encoded E rootElem =
     ((\<exists>x. MarshalURLSet E x = Some rootElem) \<or> (\<exists>x. MarshalIndex E x = Some rootElem))"

definition newFiles :: "World \<Rightarrow> World \<Rightarrow> (string \<times> string) list" where
  "newFiles w w' = drop (length (written w)) (written w')"

definition documents :: "Env \<Rightarrow> string \<Rightarrow> (string \<times> string) list \<Rightarrow> bool" where
  "documents E stylesheet files =
     list_all (\<lambda>(p, doc). \<exists>rootElem. encoded E rootElem \<and> doc = document stylesheet rootElem) files"

definition emits :: "Env \<Rightarrow> string \<Rightarrow> World \<Rightarrow> World \<Rightarrow> bool" where
  "emits E stylesheet w w' =
     (written w' = written w @ newFiles w w' \<and> documents E stylesheet (newFiles w w'))"

text \<open>
  For the validation order: the verdict on one file (what \<open>validateXMLFile\<close> returns for
  it), the file an index entry refers to (none when its URL does not parse), the verdict
  on an index entry, and the entries the loop examines: those that pass, up to and
  including the first that fails.
\<close>

definition verdict :: "Env \<Rightarrow> World \<Rightarrow> string \<Rightarrow> bool \<Rightarrow> error option" where
  "verdict E w p isIndex = fst (validateXMLFile E w p isIndex)"

definition shardPath :: "'u URLPkg \<Rightarrow> Env \<Rightarrow> SitemapOptions \<Rightarrow> Sitemap \<Rightarrow> string option" where
  "shardPath U E s sm =
     (case url_Parse U (sm_Loc sm) of
        None \<Rightarrow> None
      | Some u \<Rightarrow> Some (path_Join E (Dir s) (path_Base E (url_Path U u))))"

definition shardVerdict :: "'u URLPkg \<Rightarrow> Env \<Rightarrow> SitemapOptions \<Rightarrow> World \<Rightarrow> Sitemap \<Rightarrow> error option" where
  "shardVerdict U E s w sm =
     (case shardPath U E s sm of
        None \<Rightarrow> Some (InvalidSitemapURL (sm_Loc sm))
      | Some p \<Rightarrow> verdict E w p False)"

definition examined :: "'u URLPkg \<Rightarrow> Env \<Rightarrow> SitemapOptions \<Rightarrow> World \<Rightarrow> Sitemap list \<Rightarrow> Sitemap list" where
  "examined U E s w sms =
     takeWhile (\<lambda>sm. shardVerdict U E s w sm = None) sms @
     take 1 (dropWhile (\<lambda>sm. shardVerdict U E s w sm = None) sms)"

definition firstFailure :: "'u URLPkg \<Rightarrow> Env \<Rightarrow> SitemapOptions \<Rightarrow> World \<Rightarrow> Sitemap list \<Rightarrow> error option" where
  "firstFailure U E s w sms =
     (case dropWhile (\<lambda>sm. shardVerdict U E s w sm = None) sms of
        [] \<Rightarrow> None
      | sm # _ \<Rightarrow> shardVerdict U E s w sm)"

text \<open>The output directory exists, or can be created.\<close>

definition dirReady :: "Env \<Rightarrow> SitemapOptions \<Rightarrow> bool" where
  "dirReady E s = (\<not> dirMissing E (Dir s) \<or> \<not> mkdirFails E (Dir s))"

text \<open>
  A reading of the clock is a date of the calendar with a four-digit year. The options
  that a caller can build: fresh ones, extended by \<open>AddURL\<close> and \<open>AddURLs\<close>.
\<close>

definition validNow :: "Time \<Rightarrow> bool" where
  "validNow t =
     (0 \<le> Year t \<and> Year t \<le> 9999 \<and> 1 \<le> Month t \<and> Month t \<le> 12 \<and>
      1 \<le> Day t \<and> Day t \<le> daysIn (Month t) (Year t))"

inductive collected :: "SitemapOptions \<Rightarrow> bool" where
  new: "collected (NewSitemapOptions dir baseURL)"
| add: "collected s \<Longrightarrow> validNow now \<Longrightarrow> collected (AddURL now s url)"
| adds: "collected s \<Longrightarrow> (\<And>k. validNow (clock k)) \<Longrightarrow> collected (AddURLs clock s urls)"

definition datesValid :: "SitemapOptions \<Rightarrow> bool" where
  "datesValid s = list_all (\<lambda>u. calendar_date (LastMod u) \<noteq> None) (URLs s)"

section \<open>Properties of the date handling\<close>

lemma digitVal_le: "isDigitChar c \<Longrightarrow> digitVal c \<le> 9"
  by (auto simp: isDigitChar_def digitVal_def)

lemma leadingInt_digit:
  "isDigitChar c \<Longrightarrow> x \<le> 999 \<Longrightarrow> leadingInt x (c # cs) = leadingInt (x * 10 + digitVal c) cs"
  using digitVal_le [of c] by (simp add: isDigitChar_def)

lemma leadingInt_nondigit: "\<not> isDigitChar c \<Longrightarrow> leadingInt x (c # cs) = Some (x, c # cs)"
  by (auto simp: isDigitChar_def)

lemma isDigitChar_not_sign: "isDigitChar c \<Longrightarrow> c \<noteq> CHR ''-'' \<and> c \<noteq> CHR ''+''"
  by (auto simp: isDigitChar_def)

lemma atoi_four:
  assumes "isDigitChar a"
  shows "atoi [a, b, c, d] =
    (if isDigitChar b \<and> isDigitChar c \<and> isDigitChar d
     then Some (int (digitVal a * 1000 + digitVal b * 100 + digitVal c * 10 + digitVal d))
     else None)"
proof -
  have s: "a \<noteq> CHR ''-''" "a \<noteq> CHR ''+''"
    using isDigitChar_not_sign [OF assms] by simp_all
  have a9: "digitVal a \<le> 9" using assms by (rule digitVal_le)
  have 0: "atoi [a, b, c, d] =
      (case leadingInt (digitVal a) [b, c, d] of
         None \<Rightarrow> None
       | Some (q, rem) \<Rightarrow> if rem \<noteq> [] then None else Some (int q))"
    using s
    by (simp add: atoi_def leadingInt_digit [OF assms] del: leadingInt.simps(2)
          split: option.splits)
  show ?thesis
  proof (cases "isDigitChar b")
    case False
    then show ?thesis
      unfolding 0 by (simp add: leadingInt_nondigit del: leadingInt.simps(2))
  next
    case b: True
    have b9: "digitVal b \<le> 9" using b by (rule digitVal_le)
    have 1: "leadingInt (digitVal a) [b, c, d] = leadingInt (digitVal a * 10 + digitVal b) [c, d]"
      using a9 by (simp add: leadingInt_digit [OF b] del: leadingInt.simps(2))
    show ?thesis
    proof (cases "isDigitChar c")
      case False
      then show ?thesis
        unfolding 0 1 using b by (simp add: leadingInt_nondigit del: leadingInt.simps(2))
    next
      case c: True
      have c9: "digitVal c \<le> 9" using c by (rule digitVal_le)
      have 2: "leadingInt (digitVal a * 10 + digitVal b) [c, d] =
          leadingInt ((digitVal a * 10 + digitVal b) * 10 + digitVal c) [d]"
        using a9 b9 by (simp add: leadingInt_digit [OF c] del: leadingInt.simps(2))
      show ?thesis
      proof (cases "isDigitChar d")
        case False
        then show ?thesis
          unfolding 0 1 2 using b c by (simp add: leadingInt_nondigit del: leadingInt.simps(2))
      next
        case d: True
        have 3: "leadingInt ((digitVal a * 10 + digitVal b) * 10 + digitVal c) [d] =
            Some (((digitVal a * 10 + digitVal b) * 10 + digitVal c) * 10 + digitVal d, [])"
          using a9 b9 c9 by (simp add: leadingInt_digit [OF d] del: leadingInt.simps(2))
        show ?thesis unfolding 0 1 2 3 using b c d by simp
      qed
    qed
  qed
qed

text \<open>The parser accepts exactly the calendar dates, and reads the date they denote.\<close>

lemma time_Parse_calendar:
  "time_Parse v =
     (case calendar_date v of
        None \<Rightarrow> None
      | Some (y, m, d) \<Rightarrow> Some \<lparr>Year = y, Month = m, Day = d, Nanos = 0\<rparr>)"
proof (cases v rule: calendar_date.cases)
  case (1 y1 y2 y3 y4 s1 m1 m2 s2 d1 d2)
  show ?thesis
  proof (cases "isDigitChar y1")
    case True
    then show ?thesis
      unfolding 1 time_Parse_def
      apply (simp add: atoi_four isDigit_def skipDash_def getnum_def Let_def split: option.splits)
      apply (auto simp: isDigitChar_def)
      done
  next
    case False
    then show ?thesis
      unfolding 1 time_Parse_def by (auto simp: isDigit_def isDigitChar_def Let_def)
  qed
qed (auto simp: time_Parse_def isDigit_def skipDash_def getnum_def split: option.splits list.splits)

lemma After_midnight:
  "After \<lparr>Year = y, Month = m, Day = d, Nanos = 0\<rparr> now = dateAfter (y, m, d) now"
  by (auto simp: After_def dateAfter_def)

lemma spec_lastModified_sameDay:
  "sameDay now now' \<Longrightarrow> spec_lastModified now' lm = spec_lastModified now lm"
  by (auto simp: spec_lastModified_def sameDay_def Format_def dateAfter_def split: option.splits)

lemma spec_lastModified_idem:
  "spec_lastModified now (spec_lastModified now lm) = spec_lastModified now lm"
  by (auto simp: spec_lastModified_def split: option.splits)

lemma AddURL_spec:
  "AddURL now s url = s\<lparr>URLs := URLs s @ [url\<lparr>LastMod := spec_lastModified now (LastMod url)\<rparr>]\<rparr>"
  by (auto simp: AddURL_def spec_lastModified_def time_Parse_calendar After_midnight
        split: option.splits)

lemma Format_example:
  "Format \<lparr>Year = 2024, Month = 5, Day = 17, Nanos = 43200000000000\<rparr> = ''2024-05-17''"
  by (simp add: Format_def appendInt_def decimal.simps digitChar_def)

text \<open>
  C3. For every entry passed to \<open>AddURL\<close>, the stored entry is the given one with its
  \<open>LastMod\<close> replaced as the specification says: the current UTC date when the value is
  empty, when it does not parse as a \<open>YYYY-MM-DD\<close> calendar date, or when it parses to a
  date strictly after today; the caller's value, verbatim, otherwise. Nothing else of
  the collection changes.
\<close>

theorem AddURL_lastModified:
  "AddURL now s url =
     s\<lparr>URLs := URLs s @
       [url\<lparr>LastMod :=
          (if LastMod url = [] then Format now
           else case calendar_date (LastMod url) of
                  None \<Rightarrow> Format now
                | Some d \<Rightarrow> if dateAfter d now then Format now else LastMod url)\<rparr>]\<rparr>"
  using AddURL_spec [of now s url] by (simp add: spec_lastModified_def)

theorem AddURL_lastModified_witness:
  "URLs (AddURL \<lparr>Year = 2024, Month = 5, Day = 17, Nanos = 43200000000000\<rparr>
           (NewSitemapOptions ''out'' ''https://www.example.com/'')
           \<lparr>Loc = ''/about'', LastMod = ''invalid-date'', ChangeFreq = ''monthly'',
            Priority = ''0.8''\<rparr>)
   = [\<lparr>Loc = ''/about'', LastMod = ''2024-05-17'', ChangeFreq = ''monthly'', Priority = ''0.8''\<rparr>]"
  using AddURL_lastModified [of "\<lparr>Year = 2024, Month = 5, Day = 17, Nanos = 43200000000000\<rparr>"
           "NewSitemapOptions ''out'' ''https://www.example.com/''"
           "\<lparr>Loc = ''/about'', LastMod = ''invalid-date'', ChangeFreq = ''monthly'',
             Priority = ''0.8''\<rparr>"]
  by (simp add: Format_example NewSitemapOptions_def isDigitChar_def)

text \<open>
  C4. The date defaulting is idempotent. Let an entry be stored by \<open>AddURL\<close> at the
  instant \<open>now\<close>. Passing the stored entry to \<open>AddURL\<close> again, at any instant \<open>now'\<close> of
  the same UTC day, stores it unchanged; and an entry whose \<open>LastMod\<close> is a calendar date
  not after today is stored as it was given.
\<close>

theorem AddURL_idempotent:
  "sameDay now now' \<Longrightarrow>
     AddURL now' s' (last (URLs (AddURL now s url))) =
       s'\<lparr>URLs := URLs s' @ [last (URLs (AddURL now s url))]\<rparr> \<and>
     (\<forall>d. calendar_date (LastMod url) = Some d \<and> \<not> dateAfter d now \<longrightarrow>
        last (URLs (AddURL now s url)) = url)"
proof (intro conjI allI impI)
  assume sd: "sameDay now now'"
  have l: "last (URLs (AddURL now s url)) = url\<lparr>LastMod := spec_lastModified now (LastMod url)\<rparr>"
    by (simp add: AddURL_spec)
  show "AddURL now' s' (last (URLs (AddURL now s url))) =
       s'\<lparr>URLs := URLs s' @ [last (URLs (AddURL now s url))]\<rparr>"
    unfolding l
    by (simp add: AddURL_spec spec_lastModified_sameDay [OF sd] spec_lastModified_idem)
next
  fix d
  assume "calendar_date (LastMod url) = Some d \<and> \<not> dateAfter d now"
  then show "last (URLs (AddURL now s url)) = url"
    by (auto simp: AddURL_spec spec_lastModified_def)
qed

theorem AddURL_idempotent_witness:
  "sameDay \<lparr>Year = 2024, Month = 5, Day = 17, Nanos = 43200000000000\<rparr>
           \<lparr>Year = 2024, Month = 5, Day = 17, Nanos = 86399000000000\<rparr> \<and>
   calendar_date ''2023-10-25'' = Some (2023, 10, 25) \<and>
   \<not> dateAfter (2023, 10, 25) \<lparr>Year = 2024, Month = 5, Day = 17, Nanos = 43200000000000\<rparr> \<and>
   last (URLs (AddURL \<lparr>Year = 2024, Month = 5, Day = 17, Nanos = 43200000000000\<rparr>
           (NewSitemapOptions ''out'' ''https://www.example.com'')
           \<lparr>Loc = ''/'', LastMod = ''2023-10-25'', ChangeFreq = ''daily'', Priority = ''1.0''\<rparr>))
     = \<lparr>Loc = ''/'', LastMod = ''2023-10-25'', ChangeFreq = ''daily'', Priority = ''1.0''\<rparr> \<and>
   URLs (AddURL \<lparr>Year = 2024, Month = 5, Day = 17, Nanos = 86399000000000\<rparr>
           (NewSitemapOptions ''out'' ''https://www.example.com'')
           \<lparr>Loc = ''/'', LastMod = ''2023-10-25'', ChangeFreq = ''daily'', Priority = ''1.0''\<rparr>)
     = [\<lparr>Loc = ''/'', LastMod = ''2023-10-25'', ChangeFreq = ''daily'', Priority = ''1.0''\<rparr>]"
proof -
  let ?t = "\<lparr>Year = 2024, Month = 5, Day = 17, Nanos = 43200000000000\<rparr>"
  let ?t' = "\<lparr>Year = 2024, Month = 5, Day = 17, Nanos = 86399000000000\<rparr>"
  let ?s = "NewSitemapOptions ''out'' ''https://www.example.com''"
  let ?u = "\<lparr>Loc = ''/'', LastMod = ''2023-10-25'', ChangeFreq = ''daily'', Priority = ''1.0''\<rparr>"
  have sd: "sameDay ?t ?t'" by (simp add: sameDay_def)
  have cd: "calendar_date ''2023-10-25'' = Some (2023, 10, 25)"
    by (simp add: isDigitChar_def digitVal_def daysIn_def)
  have na: "\<not> dateAfter (2023, 10, 25) ?t" by (simp add: dateAfter_def)
  have kept: "last (URLs (AddURL ?t ?s ?u)) = ?u"
    using AddURL_idempotent [OF sd, of ?s ?s ?u] cd na by simp
  have again: "AddURL ?t' ?s ?u = ?s\<lparr>URLs := URLs ?s @ [?u]\<rparr>"
    using AddURL_idempotent [OF sd, of ?s ?s ?u] kept by simp
  show ?thesis
    using sd cd na kept again by (simp add: NewSitemapOptions_def)
qed

section \<open>Properties of the generation\<close>

lemma shard_take: "shard m xs k = take m (drop (k * m) xs)"
  by (simp add: shard_def min_def)

lemma concat_shards: "concat (map (shard m xs) [0..<N]) = take (N * m) xs"
proof (induction N)
  case 0
  then show ?case by simp
next
  case (Suc N)
  have "take (N * m) xs @ take m (drop (N * m) xs) = take (N * m + m) xs"
    by (simp add: take_add)
  then show ?case using Suc by (simp add: shard_take add.commute)
qed

lemma goSlice_shard:
  assumes "goSlice xs (i * M) (if i * M + M > int (length xs) then int (length xs) else i * M + M) = Some sl"
    and "0 < M" and "0 \<le> i"
  shows "sl = shard (nat M) xs (nat i)"
proof -
  have n: "nat (i * M) = nat i * nat M" using assms by (simp add: nat_mult_distrib)
  have nn: "0 \<le> i * M" using assms by simp
  show ?thesis
  proof (cases "i * M + M > int (length xs)")
    case True
    with assms have le: "i * M \<le> int (length xs)" and sl: "sl = take (nat (int (length xs) - i * M)) (drop (nat (i * M)) xs)"
      by (auto simp: goSlice_def split: if_splits)
    have "length (drop (nat (i * M)) xs) = nat (int (length xs) - i * M)" using le nn by simp
    then have "sl = drop (nat (i * M)) xs" unfolding sl by simp
    moreover have "length (drop (nat (i * M)) xs) \<le> nat M" using True le nn by simp
    ultimately show ?thesis by (simp add: shard_take n)
  next
    case False
    with assms have sl: "sl = take (nat M) (drop (nat (i * M)) xs)"
      by (auto simp: goSlice_def split: if_splits)
    then show ?thesis by (simp add: shard_take n)
  qed
qed

lemma writeSitemapFile_None:
  assumes "writeSitemapFile E s w name urls = (None, w')"
  shows "w' = w\<lparr>written := written w @ [(path_Join E (Dir s) name, document (Stylesheet s) (the (MarshalURLSet E \<lparr>us_Xmlns = sitemapsNamespace, us_URLs = urls\<rparr>)))]\<rparr>
     \<and> MarshalURLSet E \<lparr>us_Xmlns = sitemapsNamespace, us_URLs = urls\<rparr> \<noteq> None"
  using assms
  by (auto simp: writeSitemapFile_def os_WriteFile_def document_def Let_def split: option.splits if_splits)

lemma writeShards_Inr:
  assumes "writeShards U E now s b fc i acc w = (Inr sm, w')" and "0 < MaxURLs s" and "0 \<le> i"
  shows "w' = w\<lparr>written := written w @ map (shardFile E s) [nat i..<nat fc]\<rparr>"
  using assms
proof (induction "nat (fc - i)" arbitrary: i acc w)
  case 0
  then have "\<not> i < fc" by simp
  then show ?case using 0 by (simp add: writeShards.simps)
next
  case (Suc k)
  then have lt: "i < fc" by simp
  let ?name = "''sitemap_'' @ Sprintf_d (i + 1) @ ''.xml''"
  let ?end1 = "(if i * MaxURLs s + MaxURLs s > int (length (URLs s)) then int (length (URLs s)) else i * MaxURLs s + MaxURLs s)"
  from Suc.prems(1) lt obtain sl where sl: "goSlice (URLs s) (i * MaxURLs s) ?end1 = Some sl"
    by (subst (asm) writeShards.simps) (auto simp: Let_def split: option.splits)
  from Suc.prems(1) lt sl obtain w1 where w1: "writeSitemapFile E s w ?name sl = (None, w1)"
    by (subst (asm) writeShards.simps) (auto simp: Let_def split: option.splits prod.splits)
  from Suc.prems(1) lt sl w1 obtain u where u: "resolveSitemapURL U b ?name = Inr u"
    by (subst (asm) writeShards.simps) (auto simp: Let_def split: option.splits prod.splits sum.splits)
  from Suc.prems(1) lt sl w1 u
  have rec: "writeShards U E now s b fc (i + 1) (acc @ [\<lparr>sm_Loc = u, sm_LastMod = Format now\<rparr>]) w1 = (Inr sm, w')"
    by (subst (asm) writeShards.simps) (auto simp: Let_def split: option.splits prod.splits sum.splits)
  have k: "k = nat (fc - (i + 1))" using Suc.hyps(2) by simp
  have IH: "w' = w1\<lparr>written := written w1 @ map (shardFile E s) [nat (i + 1)..<nat fc]\<rparr>"
    using Suc.hyps(1) [OF k rec Suc.prems(2)] Suc.prems(3) by simp
  have sl': "sl = shard (nat (MaxURLs s)) (URLs s) (nat i)"
    using goSlice_shard [OF sl Suc.prems(2) Suc.prems(3)] .
  have nm: "?name = shardName (Suc (nat i))"
    using Suc.prems(3) by (simp add: Sprintf_d_def shardName_def nat_add_distrib)
  have w1': "w1 = w\<lparr>written := written w @ [shardFile E s (nat i)]\<rparr>"
    using writeSitemapFile_None [OF w1 [unfolded nm sl']] by (simp add: shardFile_def)
  have up: "[nat i..<nat fc] = nat i # [nat (i + 1)..<nat fc]"
    using lt Suc.prems(3) by (simp add: upt_conv_Cons nat_add_distrib)
  show ?case unfolding IH w1' up by simp
qed

lemma ceil_div:
  fixes n M :: int
  assumes "0 < M"
  shows "(n + M - 1) div M = \<lceil>real_of_int n / real_of_int M\<rceil>"
proof -
  have c: "\<lceil>real_of_int n / real_of_int M\<rceil> = - (- n div M)"
    by (rule ceiling_divide_eq_div)
  have r: "0 \<le> n mod M" "n mod M < M" using assms by simp_all
  have e1: "n + M - 1 = (n mod M + M - 1) + (n div M) * M" by simp
  have M0: "M \<noteq> 0" using assms by simp
  have "(n + M - 1) div M = n div M + (n mod M + M - 1) div M"
    by (subst e1) (rule div_mult_self1 [OF M0])
  moreover have "(n mod M + M - 1) div M = (if n mod M = 0 then 0 else 1)"
  proof (cases "n mod M = 0")
    case True
    then show ?thesis using assms by (simp add: div_pos_pos_trivial)
  next
    case False
    have e2: "n mod M + M - 1 = (n mod M - 1) + 1 * M" by simp
    have "(n mod M + M - 1) div M = 1 + (n mod M - 1) div M"
      by (subst e2) (rule div_mult_self1 [OF M0])
    moreover have "(n mod M - 1) div M = 0" using False r by (simp add: div_pos_pos_trivial)
    ultimately show ?thesis using False by simp
  qed
  moreover have "- (- n div M) = (if n mod M = 0 then n div M else n div M + 1)"
    using assms by (simp add: zdiv_zminus1_eq_if)
  ultimately show ?thesis unfolding c by simp
qed


lemma goDiv_pos: "0 \<le> a \<Longrightarrow> 0 < b \<Longrightarrow> goDiv a b = Some (a div b)"
  by (cases "a = 0") (auto simp: goDiv_def)

lemma writeSitemapFile_error:
  "writeSitemapFile E s w name urls = (Some e, w') \<Longrightarrow> \<not> isValidationError e \<and> written w' = written w"
  by (auto simp: writeSitemapFile_def os_WriteFile_def Let_def split: option.splits if_splits)

lemma resolveURL_error: "resolveURL U s loc = Inl e \<Longrightarrow> \<exists>x. e = UrlError x"
  by (auto simp: resolveURL_def split: option.splits)

lemma resolveSitemapURL_error: "resolveSitemapURL U b name = Inl e \<Longrightarrow> \<exists>x. e = UrlError x"
  by (auto simp: resolveSitemapURL_def split: option.splits)

lemma writeShards_sitemaps:
  assumes "writeShards U E now s b fc i acc w = (Inr sm, w')" and "0 < MaxURLs s" and "0 \<le> i"
  shows "sm = acc @ map (indexEntry U now b) [nat i..<nat fc]"
  using assms
proof (induction "nat (fc - i)" arbitrary: i acc w)
  case 0
  then have "\<not> i < fc" by simp
  then show ?case using 0 by (simp add: writeShards.simps)
next
  case (Suc k)
  then have lt: "i < fc" by simp
  let ?name = "''sitemap_'' @ Sprintf_d (i + 1) @ ''.xml''"
  let ?end1 = "(if i * MaxURLs s + MaxURLs s > int (length (URLs s)) then int (length (URLs s)) else i * MaxURLs s + MaxURLs s)"
  from Suc.prems(1) lt obtain sl where sl: "goSlice (URLs s) (i * MaxURLs s) ?end1 = Some sl"
    by (subst (asm) writeShards.simps) (auto simp: Let_def split: option.splits)
  from Suc.prems(1) lt sl obtain w1 where w1: "writeSitemapFile E s w ?name sl = (None, w1)"
    by (subst (asm) writeShards.simps) (auto simp: Let_def split: option.splits prod.splits)
  from Suc.prems(1) lt sl w1 obtain u where u: "resolveSitemapURL U b ?name = Inr u"
    by (subst (asm) writeShards.simps) (auto simp: Let_def split: option.splits prod.splits sum.splits)
  from Suc.prems(1) lt sl w1 u
  have rec: "writeShards U E now s b fc (i + 1) (acc @ [\<lparr>sm_Loc = u, sm_LastMod = Format now\<rparr>]) w1 = (Inr sm, w')"
    by (subst (asm) writeShards.simps) (auto simp: Let_def split: option.splits prod.splits sum.splits)
  have k: "k = nat (fc - (i + 1))" using Suc.hyps(2) by simp
  have IH: "sm = (acc @ [\<lparr>sm_Loc = u, sm_LastMod = Format now\<rparr>]) @ map (indexEntry U now b) [nat (i + 1)..<nat fc]"
    using Suc.hyps(1) [OF k rec Suc.prems(2)] Suc.prems(3) by simp
  have nm: "?name = shardName (Suc (nat i))"
    using Suc.prems(3) by (simp add: Sprintf_d_def shardName_def nat_add_distrib)
  have e: "\<lparr>sm_Loc = u, sm_LastMod = Format now\<rparr> = indexEntry U now b (nat i)"
    using u [unfolded nm] by (simp add: indexEntry_def)
  have up: "[nat i..<nat fc] = nat i # [nat (i + 1)..<nat fc]"
    using lt Suc.prems(3) by (simp add: upt_conv_Cons nat_add_distrib)
  show ?case unfolding IH e up by simp
qed

lemma writeShards_error:
  assumes "writeShards U E now s b fc i acc w = (Inl e, w')"
  shows "\<not> isValidationError e"
  using assms
proof (induction "nat (fc - i)" arbitrary: i acc w)
  case 0
  then have "\<not> i < fc" by simp
  then show ?case using 0 by (simp add: writeShards.simps)
next
  case (Suc k)
  then have lt: "i < fc" by simp
  have k: "k = nat (fc - (i + 1))" using Suc.hyps(2) by simp
  show ?case
    using Suc.prems lt Suc.hyps(1) [OF k]
    by (subst (asm) writeShards.simps)
       (auto simp: Let_def split: option.splits prod.splits sum.splits
             dest: writeSitemapFile_error resolveSitemapURL_error)
qed

lemma writeSitemapIndex_None:
  assumes "writeSitemapIndex U E now s w b = (None, w')" and "0 < MaxURLs s"
  shows "\<exists>data. MarshalIndex E \<lparr>ix_Xmlns = sitemapsNamespace,
              ix_Sitemaps = map (indexEntry U now b) [0..<nat ((int (length (URLs s)) + MaxURLs s - 1) div MaxURLs s)]\<rparr> = Some data \<and>
          w' = w\<lparr>written := written w @ map (shardFile E s) [0..<nat ((int (length (URLs s)) + MaxURLs s - 1) div MaxURLs s)]
                  @ [(path_Join E (Dir s) ''sitemap_index.xml'', document (Stylesheet s) data)]\<rparr>"
proof -
  let ?fc = "(int (length (URLs s)) + MaxURLs s - 1) div MaxURLs s"
  have d: "goDiv (int (length (URLs s)) + MaxURLs s - 1) (MaxURLs s) = Some ?fc"
    using assms(2) by (intro goDiv_pos) auto
  from assms(1) obtain sm w1 where ws: "writeShards U E now s b ?fc 0 [] w = (Inr sm, w1)"
    by (auto simp: writeSitemapIndex_def d split: prod.splits sum.splits)
  have sm: "sm = map (indexEntry U now b) [0..<nat ?fc]"
    using writeShards_sitemaps [OF ws assms(2)] by simp
  have w1: "w1 = w\<lparr>written := written w @ map (shardFile E s) [0..<nat ?fc]\<rparr>"
    using writeShards_Inr [OF ws assms(2)] by simp
  from assms(1) show ?thesis
    by (auto simp: writeSitemapIndex_def d ws Let_def sm w1 os_WriteFile_def document_def
          split: option.splits if_splits)
qed

lemma writeSitemapIndex_error:
  "writeSitemapIndex U E now s w b = (Some e, w') \<Longrightarrow> \<not> isValidationError e"
  by (auto simp: writeSitemapIndex_def Let_def os_WriteFile_def
        split: option.splits prod.splits sum.splits if_splits dest: writeShards_error)

lemma validateXMLFile_world:
  "validateXMLFile E w p isIndex = (r, w') \<Longrightarrow> w' = w\<lparr>reads := reads w @ [p]\<rparr>"
  by (auto simp: validateXMLFile_def os_ReadFile_def Let_def split: option.splits if_splits)

lemma validateXMLFile_errors:
  "validateXMLFile E w p isIndex = (Some e, w') \<Longrightarrow> isValidationError e"
  by (auto simp: validateXMLFile_def os_ReadFile_def Let_def split: option.splits if_splits)

lemma validateEach_written:
  "validateEach U E s w sms = (r, w') \<Longrightarrow> written w' = written w \<and> dirs w' = dirs w"
proof (induction sms arbitrary: w)
  case Nil
  then show ?case by simp
next
  case (Cons a sms)
  then show ?case
    by (auto simp: Let_def split: option.splits prod.splits dest!: validateXMLFile_world)
qed

lemma validateSitemapIndexAndFiles_written:
  "validateSitemapIndexAndFiles U E s w = (r, w') \<Longrightarrow> written w' = written w \<and> dirs w' = dirs w"
  by (auto simp: validateSitemapIndexAndFiles_def Let_def os_ReadFile_def
        split: option.splits prod.splits if_splits
        dest!: validateXMLFile_world validateEach_written)

lemma prepareURLs_length: "prepareURLs U s us = (r, us') \<Longrightarrow> length us' = length us"
  by (induction us arbitrary: r us') (auto split: sum.splits prod.splits)

lemma prepareURLs_error: "prepareURLs U s us = (Some e, us') \<Longrightarrow> \<exists>x. e = UrlError x"
  by (induction us arbitrary: us') (auto split: sum.splits prod.splits dest: resolveURL_error)

lemma prepareURLs_None:
  "prepareURLs U s us = (None, us') \<Longrightarrow>
     us' = map (\<lambda>u. u\<lparr>Loc := projr (resolveURL U s (Loc u))\<rparr>) us \<and>
     (\<forall>u \<in> set us. \<exists>l. resolveURL U s (Loc u) = Inr l)"
  by (induction us arbitrary: us') (auto split: sum.splits prod.splits)

lemma resolveURL_frame:
  "BaseURL s' = BaseURL s \<Longrightarrow> resolveURL U s' loc = resolveURL U s loc"
  by (simp add: resolveURL_def split: option.splits)

lemma prepareURLs_frame:
  "BaseURL s' = BaseURL s \<Longrightarrow> prepareURLs U s' us = prepareURLs U s us"
  by (induction us) (auto simp: resolveURL_frame [of s' s] split: sum.splits prod.splits)

lemma writeShards_marshal:
  assumes "writeShards U E now s b fc i acc w = (Inr sm, w')" and "0 < MaxURLs s" and "0 \<le> i"
    and "nat i \<le> k" and "k < nat fc"
  shows "\<exists>data. MarshalURLSet E \<lparr>us_Xmlns = sitemapsNamespace,
            us_URLs = shard (nat (MaxURLs s)) (URLs s) k\<rparr> = Some data"
  using assms
proof (induction "nat (fc - i)" arbitrary: i acc w)
  case 0
  then show ?case by simp
next
  case (Suc j)
  then have lt: "i < fc" by simp
  let ?name = "''sitemap_'' @ Sprintf_d (i + 1) @ ''.xml''"
  let ?end1 = "(if i * MaxURLs s + MaxURLs s > int (length (URLs s)) then int (length (URLs s)) else i * MaxURLs s + MaxURLs s)"
  from Suc.prems(1) lt obtain sl where sl: "goSlice (URLs s) (i * MaxURLs s) ?end1 = Some sl"
    by (subst (asm) writeShards.simps) (auto simp: Let_def split: option.splits)
  from Suc.prems(1) lt sl obtain w1 where w1: "writeSitemapFile E s w ?name sl = (None, w1)"
    by (subst (asm) writeShards.simps) (auto simp: Let_def split: option.splits prod.splits)
  from Suc.prems(1) lt sl w1 obtain u where u: "resolveSitemapURL U b ?name = Inr u"
    by (subst (asm) writeShards.simps) (auto simp: Let_def split: option.splits prod.splits sum.splits)
  from Suc.prems(1) lt sl w1 u
  have rec: "writeShards U E now s b fc (i + 1) (acc @ [\<lparr>sm_Loc = u, sm_LastMod = Format now\<rparr>]) w1 = (Inr sm, w')"
    by (subst (asm) writeShards.simps) (auto simp: Let_def split: option.splits prod.splits sum.splits)
  have j: "j = nat (fc - (i + 1))" using Suc.hyps(2) by simp
  have sl': "sl = shard (nat (MaxURLs s)) (URLs s) (nat i)"
    using goSlice_shard [OF sl Suc.prems(2) Suc.prems(3)] .
  show ?case
  proof (cases "k = nat i")
    case True
    then show ?thesis using writeSitemapFile_None [OF w1] by (auto simp: sl')
  next
    case False
    then have "nat (i + 1) \<le> k" using Suc.prems(3,4) by simp
    then show ?thesis
      using Suc.hyps(1) [OF j rec Suc.prems(2) _ _ Suc.prems(5)] Suc.prems(3) by simp
  qed
qed

lemma writeSitemapIndex_marshal:
  assumes "writeSitemapIndex U E now s w b = (None, w')" and "0 < MaxURLs s"
   and "k < nat ((int (length (URLs s)) + MaxURLs s - 1) div MaxURLs s)"
  shows "\<exists>data. MarshalURLSet E \<lparr>us_Xmlns = sitemapsNamespace,
            us_URLs = shard (nat (MaxURLs s)) (URLs s) k\<rparr> = Some data"
proof -
  let ?fc = "(int (length (URLs s)) + MaxURLs s - 1) div MaxURLs s"
  have d: "goDiv (int (length (URLs s)) + MaxURLs s - 1) (MaxURLs s) = Some ?fc"
    using assms(2) by (intro goDiv_pos) auto
  from assms(1) obtain sm w1 where ws: "writeShards U E now s b ?fc 0 [] w = (Inr sm, w1)"
    by (auto simp: writeSitemapIndex_def d split: prod.splits sum.splits)
  show ?thesis using writeShards_marshal [OF ws assms(2) _ _ assms(3)] by simp
qed

lemma Write_generated:
  assumes W: "Write U E now s w b ss = (r, s', w')" and g: "generated r"
  shows "\<exists>w1. written w1 = written w \<and> reads w1 = reads w \<and>
           prepareURLs U s (URLs s) = (None, URLs s') \<and>
           s' = s\<lparr>Stylesheet := ss, URLs := URLs s'\<rparr> \<and>
           (if int (length (URLs s)) \<le> MaxURLs s
            then \<exists>w2. writeSitemapFile E s' w1 ''sitemap.xml'' (URLs s') = (None, w2) \<and>
                   validateXMLFile E w2 (path_Join E (Dir s) ''sitemap.xml'') False = (r, w')
            else \<exists>w2. writeSitemapIndex U E now s' w1 b = (None, w2) \<and>
                   validateSitemapIndexAndFiles U E s' w2 = (r, w'))"
proof -
  let ?s1 = "s\<lparr>Stylesheet := ss\<rparr>"
  obtain mk w1 where mk: "(if dirMissing E (Dir ?s1) then os_MkdirAll E w (Dir ?s1) else (None, w)) = (mk, w1)"
    by (cases "(if dirMissing E (Dir ?s1) then os_MkdirAll E w (Dir ?s1) else (None, w))") auto
  have mkN: "mk = None"
    using W g mk by (cases mk) (auto simp: Write_def Let_def generated_def os_MkdirAll_def split: if_splits)
  have w1: "written w1 = written w" "reads w1 = reads w"
    using mk by (auto simp: os_MkdirAll_def split: if_splits)
  obtain pr urls' where p: "prepareURLs U ?s1 (URLs ?s1) = (pr, urls')"
    by (cases "prepareURLs U ?s1 (URLs ?s1)") auto
  have prN: "pr = None"
    using W g mk mkN p prepareURLs_error [of U ?s1 "URLs ?s1" _ urls']
    by (cases pr) (auto simp: Write_def Let_def generated_def)
  have p': "prepareURLs U s (URLs s) = (None, urls')"
    using p prN prepareURLs_frame [of ?s1 s U "URLs s"] by simp
  have len: "length urls' = length (URLs s)" using prepareURLs_length [OF p'] .
  let ?s2 = "s\<lparr>Stylesheet := ss, URLs := urls'\<rparr>"
  have s2: "?s1\<lparr>URLs := urls'\<rparr> = ?s2" by simp
  show ?thesis
  proof (cases "int (length (URLs s)) \<le> MaxURLs s")
    case True
    obtain r2 w2 where f: "writeSitemapFile E ?s2 w1 ''sitemap.xml'' urls' = (r2, w2)"
      by (cases "writeSitemapFile E ?s2 w1 ''sitemap.xml'' urls'") auto
    have r2: "r2 = None"
      using W g mk mkN p prN True len f writeSitemapFile_error [of E ?s2 w1 "''sitemap.xml''" urls' _ w2]
      by (cases r2) (auto simp: Write_def Let_def generated_def)
    have "s' = ?s2 \<and> validateXMLFile E w2 (path_Join E (Dir s) ''sitemap.xml'') False = (r, w')"
      using W mk mkN p prN True len f r2
      by (auto simp: Write_def Let_def split: prod.splits)
    then show ?thesis using True w1 p' f r2 by auto
  next
    case False
    obtain r2 w2 where f: "writeSitemapIndex U E now ?s2 w1 b = (r2, w2)"
      by (cases "writeSitemapIndex U E now ?s2 w1 b") auto
    have r2: "r2 = None"
      using W g mk mkN p prN False len f writeSitemapIndex_error [of U E now ?s2 w1 b _ w2]
      by (cases r2) (auto simp: Write_def Let_def generated_def)
    have "s' = ?s2 \<and> validateSitemapIndexAndFiles U E ?s2 w2 = (r, w')"
      using W mk mkN p prN False len f r2
      by (auto simp: Write_def Let_def split: prod.splits)
    then show ?thesis using False w1 p' f r2 by auto
  qed
qed

lemma fileCount_bounds:
  fixes n M :: int
  assumes "0 < M" and "0 \<le> n"
  shows "n \<le> ((n + M - 1) div M) * M" and "((n + M - 1) div M - 1) * M < n \<or> n = 0"
proof -
  let ?q = "(n + M - 1) div M"
  have 1: "?q * M + (n + M - 1) mod M = n + M - 1" by simp
  have 2: "0 \<le> (n + M - 1) mod M" "(n + M - 1) mod M < M" using assms by simp_all
  show "n \<le> ?q * M" using 1 2 by linarith
  have "(?q - 1) * M = ?q * M - M" by (simp add: algebra_simps)
  then show "(?q - 1) * M < n \<or> n = 0" using 1 2 by linarith
qed

lemma shards_cover:
  assumes "0 < M"
  shows "concat (map (shard (nat M) xs) [0..<nat ((int (length xs) + M - 1) div M)]) = xs"
proof -
  let ?N = "nat ((int (length xs) + M - 1) div M)"
  have q0: "0 \<le> (int (length xs) + M - 1) div M" using assms by (simp add: pos_imp_zdiv_nonneg_iff)
  have "int (length xs) \<le> ((int (length xs) + M - 1) div M) * M"
    using fileCount_bounds(1) [OF assms, of "int (length xs)"] by simp
  also have "\<dots> = int (?N * nat M)" using q0 assms by simp
  finally have "length xs \<le> ?N * nat M" by linarith
  then show ?thesis by (simp add: concat_shards)
qed

lemma shards_nonempty:
  assumes "0 < M" and "k < nat ((int (length xs) + M - 1) div M)"
  shows "shard (nat M) xs k \<noteq> [] \<and> length (shard (nat M) xs k) \<le> nat M"
proof -
  let ?q = "(int (length xs) + M - 1) div M"
  have k: "int k \<le> ?q - 1" using assms(2) by linarith
  have n0: "length xs \<noteq> 0"
  proof
    assume "length xs = 0"
    then have "?q = 0" using assms(1) by (simp add: div_pos_pos_trivial)
    then show False using assms(2) by simp
  qed
  have "(?q - 1) * M < int (length xs)"
    using fileCount_bounds(2) [OF assms(1), of "int (length xs)"] n0 by simp
  moreover have "int k * M \<le> (?q - 1) * M" using k assms(1) by (simp add: mult_right_mono)
  ultimately have "int k * M < int (length xs)" by linarith
  moreover have "int k * M = int (k * nat M)" using assms(1) by simp
  ultimately have "k * nat M < length xs" by linarith
  then show ?thesis using assms(1) by (simp add: shard_take)
qed

lemma Write_frame:
  assumes "Write U E now s w b ss = (r, s', w')"
  shows "MaxURLs s' = MaxURLs s \<and> Dir s' = Dir s \<and> BaseURL s' = BaseURL s \<and>
         MaxFileSize s' = MaxFileSize s \<and> Stylesheet s' = ss \<and> length (URLs s') = length (URLs s)"
  using assms
  by (auto simp: Write_def Let_def split: prod.splits option.splits if_splits
        dest: prepareURLs_length)

text \<open>
  C1. Let \<open>MaxURLs\<close> be positive and let \<open>Write\<close> complete the generation (it returns
  success, or an error of the validation that follows the writing). Every stored entry is
  kept, with its location resolved. If the number of entries is at most \<open>MaxURLs\<close>, exactly
  one file is written: \<open>sitemap.xml\<close>, the document of all entries. Otherwise the files
  written are, in this order, \<open>sitemap_1.xml\<close> to \<open>sitemap_N.xml\<close> for
  \<open>N = \<lceil>n / MaxURLs\<rceil>\<close>, and then \<open>sitemap_index.xml\<close>.
\<close>

theorem Write_layout:
  assumes M: "0 < MaxURLs s"
    and W: "Write U E now s w baseSitemapURL stylesheetURL = (r, s', w')"
    and g: "generated r"
  shows "URLs s' = map (\<lambda>u. u\<lparr>Loc := projr (resolveURL U s (Loc u))\<rparr>) (URLs s) \<and>
    (if int (length (URLs s)) \<le> MaxURLs s
     then \<exists>data. MarshalURLSet E \<lparr>us_Xmlns = sitemapsNamespace, us_URLs = URLs s'\<rparr> = Some data \<and>
            written w' = written w @ [(path_Join E (Dir s) ''sitemap.xml'', document stylesheetURL data)]
     else map fst (written w') = map fst (written w) @
            map (\<lambda>k. path_Join E (Dir s) (shardName k))
              [1..<Suc (nat \<lceil>real (length (URLs s)) / real_of_int (MaxURLs s)\<rceil>)] @
            [path_Join E (Dir s) ''sitemap_index.xml''])"
proof -
  from Write_generated [OF W g] obtain w1 where
    w1: "written w1 = written w" and
    p: "prepareURLs U s (URLs s) = (None, URLs s')" and
    br: "if int (length (URLs s)) \<le> MaxURLs s
            then \<exists>w2. writeSitemapFile E s' w1 ''sitemap.xml'' (URLs s') = (None, w2) \<and>
                   validateXMLFile E w2 (path_Join E (Dir s) ''sitemap.xml'') False = (r, w')
            else \<exists>w2. writeSitemapIndex U E now s' w1 baseSitemapURL = (None, w2) \<and>
                   validateSitemapIndexAndFiles U E s' w2 = (r, w')"
    by blast
  note fr = Write_frame [OF W]
  have urls: "URLs s' = map (\<lambda>u. u\<lparr>Loc := projr (resolveURL U s (Loc u))\<rparr>) (URLs s)"
    using prepareURLs_None [OF p] by simp
  show ?thesis
  proof (cases "int (length (URLs s)) \<le> MaxURLs s")
    case True
    with br obtain w2 where f: "writeSitemapFile E s' w1 ''sitemap.xml'' (URLs s') = (None, w2)"
      and v: "validateXMLFile E w2 (path_Join E (Dir s) ''sitemap.xml'') False = (r, w')"
      by auto
    from writeSitemapFile_None [OF f] obtain data where
      d: "MarshalURLSet E \<lparr>us_Xmlns = sitemapsNamespace, us_URLs = URLs s'\<rparr> = Some data" by auto
    have "written w' = written w2" using validateXMLFile_world [OF v] by simp
    also have "\<dots> = written w @ [(path_Join E (Dir s) ''sitemap.xml'', document stylesheetURL data)]"
      using writeSitemapFile_None [OF f] d fr w1 by simp
    finally show ?thesis using True urls d by simp
  next
    case False
    with br obtain w2 where f: "writeSitemapIndex U E now s' w1 baseSitemapURL = (None, w2)"
      and v: "validateSitemapIndexAndFiles U E s' w2 = (r, w')"
      by auto
    let ?N = "nat ((int (length (URLs s)) + MaxURLs s - 1) div MaxURLs s)"
    have M': "0 < MaxURLs s'" using M fr by simp
    from writeSitemapIndex_None [OF f M'] obtain data where
      w2: "w2 = w1\<lparr>written := written w1 @ map (shardFile E s') [0..<?N]
                  @ [(path_Join E (Dir s') ''sitemap_index.xml'', document (Stylesheet s') data)]\<rparr>"
      using fr by auto
    have N: "?N = nat \<lceil>real (length (URLs s)) / real_of_int (MaxURLs s)\<rceil>"
      using ceil_div [OF M, of "int (length (URLs s))"] by simp
    have names: "map fst (map (shardFile E s') [0..<?N]) =
        map (\<lambda>k. path_Join E (Dir s) (shardName k)) [1..<Suc ?N]"
    proof -
      have "map fst (map (shardFile E s') [0..<?N]) =
          map (\<lambda>k. path_Join E (Dir s) (shardName k)) (map Suc [0..<?N])"
        using fr by (simp add: shardFile_def comp_def)
      then show ?thesis by (simp only: map_Suc_upt) simp
    qed
    have "written w' = written w2" using validateSitemapIndexAndFiles_written [OF v] by simp
    then have "map fst (written w') = map fst (written w) @
            map (\<lambda>k. path_Join E (Dir s) (shardName k)) [1..<Suc ?N] @
            [path_Join E (Dir s) ''sitemap_index.xml'']"
      using w2 w1 names fr by simp
    then show ?thesis using False urls N by simp
  qed
qed

text \<open>
  C2. In the indexed case (\<open>n > MaxURLs > 0\<close>) of a generation that completes, the file of
  shard \<open>i\<close> (counted from 1) is the document of the entries at positions
  \<open>(i - 1) * MaxURLs\<close> up to \<open>min (i * MaxURLs) n\<close> of the resolved entry list; the
  shards are written in the order of their numbers, each holds at least one and at most
  \<open>MaxURLs\<close> entries, and the concatenation of the shards in that order is the entry
  list itself: nothing is duplicated, dropped or reordered.
\<close>

theorem Write_shards:
  assumes M: "0 < MaxURLs s"
    and big: "MaxURLs s < int (length (URLs s))"
    and W: "Write U E now s w baseSitemapURL stylesheetURL = (r, s', w')"
    and g: "generated r"
  shows "\<exists>indexFile.
     written w' = written w @
       map (\<lambda>k. (path_Join E (Dir s) (shardName (Suc k)),
                  document stylesheetURL
                    (the (MarshalURLSet E \<lparr>us_Xmlns = sitemapsNamespace,
                            us_URLs = shard (nat (MaxURLs s)) (URLs s') k\<rparr>))))
           [0..<nat \<lceil>real (length (URLs s)) / real_of_int (MaxURLs s)\<rceil>] @
       [indexFile] \<and>
     (\<forall>k < nat \<lceil>real (length (URLs s)) / real_of_int (MaxURLs s)\<rceil>.
         (\<exists>data. MarshalURLSet E \<lparr>us_Xmlns = sitemapsNamespace,
                    us_URLs = shard (nat (MaxURLs s)) (URLs s') k\<rparr> = Some data) \<and>
         shard (nat (MaxURLs s)) (URLs s') k \<noteq> [] \<and>
         length (shard (nat (MaxURLs s)) (URLs s') k) \<le> nat (MaxURLs s)) \<and>
     concat (map (shard (nat (MaxURLs s)) (URLs s'))
              [0..<nat \<lceil>real (length (URLs s)) / real_of_int (MaxURLs s)\<rceil>]) = URLs s'"
proof -
  from Write_generated [OF W g] big obtain w1 w2 where
    w1: "written w1 = written w" and
    f: "writeSitemapIndex U E now s' w1 baseSitemapURL = (None, w2)" and
    v: "validateSitemapIndexAndFiles U E s' w2 = (r, w')"
    by auto
  note fr = Write_frame [OF W]
  let ?N = "nat ((int (length (URLs s')) + MaxURLs s' - 1) div MaxURLs s')"
  have M': "0 < MaxURLs s'" using M fr by simp
  have N: "?N = nat \<lceil>real (length (URLs s)) / real_of_int (MaxURLs s)\<rceil>"
    using ceil_div [OF M, of "int (length (URLs s))"] fr by simp
  from writeSitemapIndex_None [OF f M'] obtain data where
    w2: "w2 = w1\<lparr>written := written w1 @ map (shardFile E s') [0..<?N]
                @ [(path_Join E (Dir s') ''sitemap_index.xml'', document (Stylesheet s') data)]\<rparr>"
    by auto
  have sf: "shardFile E s' = (\<lambda>k. (path_Join E (Dir s) (shardName (Suc k)),
                  document stylesheetURL
                    (the (MarshalURLSet E \<lparr>us_Xmlns = sitemapsNamespace,
                            us_URLs = shard (nat (MaxURLs s)) (URLs s') k\<rparr>))))"
    using fr by (auto simp: shardFile_def)
  have "written w' = written w2" using validateSitemapIndexAndFiles_written [OF v] by simp
  then have 1: "written w' = written w @
       map (\<lambda>k. (path_Join E (Dir s) (shardName (Suc k)),
                  document stylesheetURL
                    (the (MarshalURLSet E \<lparr>us_Xmlns = sitemapsNamespace,
                            us_URLs = shard (nat (MaxURLs s)) (URLs s') k\<rparr>))))
           [0..<?N] @
       [(path_Join E (Dir s') ''sitemap_index.xml'', document (Stylesheet s') data)]"
    using w2 w1 sf by simp
  have 2: "\<forall>k < ?N.
         (\<exists>data. MarshalURLSet E \<lparr>us_Xmlns = sitemapsNamespace,
                    us_URLs = shard (nat (MaxURLs s)) (URLs s') k\<rparr> = Some data) \<and>
         shard (nat (MaxURLs s)) (URLs s') k \<noteq> [] \<and>
         length (shard (nat (MaxURLs s)) (URLs s') k) \<le> nat (MaxURLs s)"
  proof (intro allI impI)
    fix k assume k: "k < ?N"
    show "(\<exists>data. MarshalURLSet E \<lparr>us_Xmlns = sitemapsNamespace,
                    us_URLs = shard (nat (MaxURLs s)) (URLs s') k\<rparr> = Some data) \<and>
         shard (nat (MaxURLs s)) (URLs s') k \<noteq> [] \<and>
         length (shard (nat (MaxURLs s)) (URLs s') k) \<le> nat (MaxURLs s)"
      using writeSitemapIndex_marshal [OF f M' k] shards_nonempty [OF M', of k "URLs s'"] k fr
      by simp
  qed
  have 3: "concat (map (shard (nat (MaxURLs s)) (URLs s')) [0..<?N]) = URLs s'"
    using shards_cover [OF M', of "URLs s'"] fr by simp
  show ?thesis using 1 2 3 unfolding N by blast
qed

lemma line_first: "CHR 0x0A \<notin> set a \<Longrightarrow> line 0 (a @ CHR 0x0A # r) = a"
  by (induction a) auto

lemma line_next: "CHR 0x0A \<notin> set a \<Longrightarrow> line (Suc k) (a @ CHR 0x0A # r) = line k r"
  by (induction a) auto

lemma xml_Header_decl: "xml_Header = xmlDeclaration @ [CHR 0x0A]"
  by (simp add: xml_Header_def xmlDeclaration_def)

lemma xmlDeclaration_line: "CHR 0x0A \<notin> set xmlDeclaration"
  by (simp add: xmlDeclaration_def)

lemma stylesheetPI_line: "CHR 0x0A \<notin> set href \<Longrightarrow> CHR 0x0A \<notin> set (stylesheetPI href)"
  by (simp add: stylesheetPI_def)

lemma document_lines:
  assumes "stylesheet \<noteq> []" and "CHR 0x0A \<notin> set stylesheet"
  shows "line 0 (document stylesheet rootElem) = xmlDeclaration"
    and "line 1 (document stylesheet rootElem) = stylesheetPI stylesheet"
    and "line 2 (document stylesheet rootElem) = line 0 rootElem"
proof -
  have d: "document stylesheet rootElem =
      xmlDeclaration @ CHR 0x0A # (stylesheetPI stylesheet @ CHR 0x0A # rootElem)"
    using assms(1) by (simp add: document_def xml_Header_decl)
  show "line 0 (document stylesheet rootElem) = xmlDeclaration"
    unfolding d by (rule line_first [OF xmlDeclaration_line])
  have "line 1 (document stylesheet rootElem) = line 0 (stylesheetPI stylesheet @ CHR 0x0A # rootElem)"
    unfolding d One_nat_def by (rule line_next [OF xmlDeclaration_line])
  then show "line 1 (document stylesheet rootElem) = stylesheetPI stylesheet"
    using line_first [OF stylesheetPI_line [OF assms(2)]] by simp
  have "line (Suc (Suc 0)) (document stylesheet rootElem) =
      line (Suc 0) (stylesheetPI stylesheet @ CHR 0x0A # rootElem)"
    unfolding d by (rule line_next [OF xmlDeclaration_line])
  then show "line 2 (document stylesheet rootElem) = line 0 rootElem"
    using line_next [OF stylesheetPI_line [OF assms(2)], of 0 rootElem]
    by (simp add: numeral_2_eq_2)
qed

lemma emits_refl: "written w' = written w \<Longrightarrow> emits E ss w w'"
  by (simp add: emits_def newFiles_def documents_def)

lemma emits_trans: "emits E ss w w1 \<Longrightarrow> emits E ss w1 w2 \<Longrightarrow> emits E ss w w2"
proof -
  assume a: "emits E ss w w1" and b: "emits E ss w1 w2"
  define n1 where "n1 = newFiles w w1"
  define n2 where "n2 = newFiles w1 w2"
  have 1: "written w1 = written w @ n1" and 2: "written w2 = written w1 @ n2"
    using a b by (simp_all add: emits_def n1_def n2_def)
  have "newFiles w w2 = n1 @ n2"
    unfolding newFiles_def 2 1 by simp
  moreover have "documents E ss n1" "documents E ss n2"
    using a b by (simp_all add: emits_def n1_def n2_def)
  ultimately show ?thesis using 1 2 by (simp add: emits_def documents_def)
qed

lemma writeSitemapFile_documents:
  "writeSitemapFile E s w name urls = (r, w') \<Longrightarrow> emits E (Stylesheet s) w w'"
  by (auto simp: writeSitemapFile_def os_WriteFile_def documents_def document_def Let_def encoded_def
        emits_def newFiles_def split: option.splits if_splits)

lemma writeShards_documents:
  "writeShards U E now s b fc i acc w = (r, w') \<Longrightarrow> emits E (Stylesheet s) w w'"
proof (induction "nat (fc - i)" arbitrary: i acc w)
  case 0
  then have "\<not> i < fc" by simp
  then have "w' = w" using 0 by (simp add: writeShards.simps)
  then show ?case by (simp add: emits_refl)
next
  case (Suc k)
  then have lt: "i < fc" by simp
  have k: "k = nat (fc - (i + 1))" using Suc.hyps(2) by simp
  let ?name = "''sitemap_'' @ Sprintf_d (i + 1) @ ''.xml''"
  let ?end1 = "(if i * MaxURLs s + MaxURLs s > int (length (URLs s)) then int (length (URLs s)) else i * MaxURLs s + MaxURLs s)"
  show ?case
  proof (cases "goSlice (URLs s) (i * MaxURLs s) ?end1")
    case None
    then have "w' = w" using Suc.prems lt
      by (subst (asm) writeShards.simps) (auto simp: Let_def)
    then show ?thesis by (simp add: emits_refl)
  next
    case (Some sl)
    obtain r1 w1 where f: "writeSitemapFile E s w ?name sl = (r1, w1)"
      by (cases "writeSitemapFile E s w ?name sl") auto
    note n1 = writeSitemapFile_documents [OF f]
    show ?thesis
    proof (cases "r1 = None \<and> (\<exists>u. resolveSitemapURL U b ?name = Inr u)")
      case False
      then have "w' = w1" using Suc.prems lt Some f
        by (subst (asm) writeShards.simps) (auto simp: Let_def split: sum.splits option.splits)
      then show ?thesis using n1 by simp
    next
      case True
      then obtain u where u: "resolveSitemapURL U b ?name = Inr u" and r1: "r1 = None" by auto
      have rec: "writeShards U E now s b fc (i + 1) (acc @ [\<lparr>sm_Loc = u, sm_LastMod = Format now\<rparr>]) w1 = (r, w')"
        using Suc.prems lt Some f u r1
        by (subst (asm) writeShards.simps) (auto simp: Let_def)
      show ?thesis using emits_trans [OF n1 Suc.hyps(1) [OF k rec]] .
    qed
  qed
qed

lemma writeSitemapIndex_documents:
  assumes "writeSitemapIndex U E now s w b = (r, w')"
  shows "emits E (Stylesheet s) w w'"
proof (cases "goDiv (int (length (URLs s)) + MaxURLs s - 1) (MaxURLs s)")
  case None
  then have "w' = w" using assms by (simp add: writeSitemapIndex_def)
  then show ?thesis by (simp add: emits_refl)
next
  case (Some fc)
  obtain r1 w1 where ws: "writeShards U E now s b fc 0 [] w = (r1, w1)"
    by (cases "writeShards U E now s b fc 0 [] w") auto
  note n1 = writeShards_documents [OF ws]
  have "emits E (Stylesheet s) w1 w'"
    using assms Some ws
    by (auto simp: writeSitemapIndex_def Let_def os_WriteFile_def documents_def document_def encoded_def
          emits_def newFiles_def split: sum.splits option.splits if_splits)
  then show ?thesis using emits_trans [OF n1] by simp
qed

lemma Write_documents:
  assumes "Write U E now s w b ss = (r, s', w')"
  shows "emits E ss w w'"
proof -
  let ?s1 = "s\<lparr>Stylesheet := ss\<rparr>"
  obtain mk w1 where mk: "(if dirMissing E (Dir ?s1) then os_MkdirAll E w (Dir ?s1) else (None, w)) = (mk, w1)"
    by (cases "(if dirMissing E (Dir ?s1) then os_MkdirAll E w (Dir ?s1) else (None, w))") auto
  have w1: "written w1 = written w"
    using mk by (auto simp: os_MkdirAll_def split: if_splits)
  obtain pr urls' where p: "prepareURLs U ?s1 (URLs ?s1) = (pr, urls')"
    by (cases "prepareURLs U ?s1 (URLs ?s1)") auto
  let ?s2 = "s\<lparr>Stylesheet := ss, URLs := urls'\<rparr>"
  show ?thesis
  proof (cases "mk = None \<and> pr = None")
    case False
    then have "written w' = written w" using assms mk p w1
      by (auto simp: Write_def Let_def split: option.splits)
    then show ?thesis by (simp add: emits_refl)
  next
    case True
    show ?thesis
    proof (cases "int (length (URLs ?s2)) \<le> MaxURLs ?s2")
      case single: True
      obtain r2 w2 where f: "writeSitemapFile E ?s2 w1 ''sitemap.xml'' urls' = (r2, w2)"
        by (cases "writeSitemapFile E ?s2 w1 ''sitemap.xml'' urls'") auto
      have "written w' = written w2" using assms mk p True single f
        by (auto simp: Write_def Let_def split: option.splits prod.splits dest!: validateXMLFile_world)
      then show ?thesis
        using emits_trans [OF emits_refl [OF w1] emits_trans [OF writeSitemapFile_documents [OF f] emits_refl]]
        by simp
    next
      case indexed: False
      obtain r2 w2 where f: "writeSitemapIndex U E now ?s2 w1 b = (r2, w2)"
        by (cases "writeSitemapIndex U E now ?s2 w1 b") auto
      have "written w' = written w2" using assms mk p True indexed f
        by (auto simp: Write_def Let_def split: option.splits prod.splits
              dest!: validateSitemapIndexAndFiles_written)
      then show ?thesis
        using emits_trans [OF emits_refl [OF w1] emits_trans [OF writeSitemapIndex_documents [OF f] emits_refl]]
        by simp
    qed
  qed
qed

text \<open>
  C7. Every document that \<open>Write\<close> emits, shard or index, is the XML declaration, then
  the stylesheet instruction when one is configured, then the root element as the encoder
  returned it. So with a stylesheet URL configured (a URL holds no line feed) the first
  line is the declaration and the second line is exactly
  \<open><?xml-stylesheet type="text/xsl" href="URL"?>\<close>; with none configured the
  declaration is directly followed by the encoded root element, and no instruction is
  written.
\<close>

theorem Write_stylesheet:
  assumes "Write U E now s w baseSitemapURL stylesheetURL = (r, s', w')"
  shows "written w' = written w @ newFiles w w' \<and>
    (\<forall>(p, doc) \<in> set (newFiles w w').
       \<exists>rootElem. encoded E rootElem \<and>
         (stylesheetURL \<noteq> [] \<longrightarrow>
            doc = xmlDeclaration @ [CHR 0x0A] @ stylesheetPI stylesheetURL @ [CHR 0x0A] @ rootElem \<and>
            (CHR 0x0A \<notin> set stylesheetURL \<longrightarrow>
               line 0 doc = xmlDeclaration \<and> line 1 doc = stylesheetPI stylesheetURL)) \<and>
         (stylesheetURL = [] \<longrightarrow> doc = xmlDeclaration @ [CHR 0x0A] @ rootElem))"
proof -
  note e = Write_documents [OF assms]
  have "\<exists>rootElem. encoded E rootElem \<and>
         (stylesheetURL \<noteq> [] \<longrightarrow>
            doc = xmlDeclaration @ [CHR 0x0A] @ stylesheetPI stylesheetURL @ [CHR 0x0A] @ rootElem \<and>
            (CHR 0x0A \<notin> set stylesheetURL \<longrightarrow>
               line 0 doc = xmlDeclaration \<and> line 1 doc = stylesheetPI stylesheetURL)) \<and>
         (stylesheetURL = [] \<longrightarrow> doc = xmlDeclaration @ [CHR 0x0A] @ rootElem)"
    if "(p, doc) \<in> set (newFiles w w')" for p doc
  proof -
    from e that obtain rootElem where r: "encoded E rootElem" "doc = document stylesheetURL rootElem"
      by (auto simp: emits_def documents_def list_all_iff)
    show ?thesis
      using r document_lines(1,2) [of stylesheetURL rootElem]
      by (intro exI [of _ rootElem]) (auto simp: document_def xml_Header_decl)
  qed
  then show ?thesis using e by (auto simp: emits_def)
qed

lemma verdict_written: "written w1 = written w \<Longrightarrow> verdict E w1 p isIndex = verdict E w p isIndex"
  by (simp add: verdict_def validateXMLFile_def os_ReadFile_def fileContent_def Let_def
        split: option.splits)

lemma shardVerdict_written:
  "written w1 = written w \<Longrightarrow> shardVerdict U E s w1 = shardVerdict U E s w"
  by (rule ext) (simp add: shardVerdict_def verdict_written [of w1 w] split: option.splits)

lemma validateXMLFile_verdict:
  "validateXMLFile E w p isIndex = (verdict E w p isIndex, w\<lparr>reads := reads w @ [p]\<rparr>)"
  using validateXMLFile_world [of E w p isIndex]
  by (cases "validateXMLFile E w p isIndex") (simp add: verdict_def)

lemma examined_Nil: "examined U E s w [] = []"
  by (simp add: examined_def)

lemma examined_Cons:
  "examined U E s w (sm # sms) =
     (if shardVerdict U E s w sm = None then sm # examined U E s w sms else [sm])"
  by (simp add: examined_def)

lemma firstFailure_Nil: "firstFailure U E s w [] = None"
  by (simp add: firstFailure_def)

lemma firstFailure_Cons:
  "firstFailure U E s w (sm # sms) =
     (if shardVerdict U E s w sm = None then firstFailure U E s w sms
      else shardVerdict U E s w sm)"
  by (simp add: firstFailure_def)

lemma examined_written:
  "written w1 = written w \<Longrightarrow> examined U E s w1 sms = examined U E s w sms"
  by (simp add: examined_def shardVerdict_written [of w1 w])

lemma firstFailure_written:
  "written w1 = written w \<Longrightarrow> firstFailure U E s w1 sms = firstFailure U E s w sms"
  by (simp add: firstFailure_def shardVerdict_written [of w1 w] cong: list.case_cong)

lemma validateEach_order:
  "validateEach U E s w sms =
     (firstFailure U E s w sms,
      w\<lparr>reads := reads w @ List.map_filter (shardPath U E s) (examined U E s w sms)\<rparr>)"
proof (induction sms arbitrary: w)
  case Nil
  show ?case by (simp add: firstFailure_Nil examined_Nil)
next
  case (Cons sm sms)
  show ?case
  proof (cases "url_Parse U (sm_Loc sm)")
    case None
    then have "shardPath U E s sm = None" "shardVerdict U E s w sm = Some (InvalidSitemapURL (sm_Loc sm))"
      by (simp_all add: shardVerdict_def shardPath_def)
    then show ?thesis using None
      by (simp add: firstFailure_Cons examined_Cons)
  next
    case (Some u)
    let ?p = "path_Join E (Dir s) (path_Base E (url_Path U u))"
    let ?w1 = "w\<lparr>reads := reads w @ [?p]\<rparr>"
    have sp: "shardPath U E s sm = Some ?p" using Some by (simp add: shardPath_def)
    have sv: "shardVerdict U E s w sm = verdict E w ?p False"
      by (simp add: shardVerdict_def sp)
    show ?thesis
    proof (cases "verdict E w ?p False")
      case None
      have ff: "firstFailure U E s ?w1 sms = firstFailure U E s w sms"
        by (rule firstFailure_written) simp
      have ex: "examined U E s ?w1 sms = examined U E s w sms"
        by (rule examined_written) simp
      have "validateEach U E s w (sm # sms) = validateEach U E s ?w1 sms"
        using Some None by (simp add: validateXMLFile_verdict Let_def)
      then show ?thesis
        using None sv sp Cons.IH [of ?w1]
        by (simp add: ff ex firstFailure_Cons examined_Cons)
    next
      case e: (Some e)
      have "validateEach U E s w (sm # sms) = (Some e, ?w1)"
        using Some e by (simp add: validateXMLFile_verdict Let_def)
      then show ?thesis
        using e sv sp by (simp add: firstFailure_Cons examined_Cons)
    qed
  qed
qed

text \<open>
  C8. In the indexed layout the index file is validated first. If it fails, that failure
  is returned and no other file is read. If it passes, it is read back and decoded (a
  failure of that is returned at once), and the shard files are validated in the order in
  which the decoded index lists them: the result is the verdict on the first entry that
  fails (none when all pass), and the files read are those of the entries up to and
  including that one; the files of the entries after it are not read.
\<close>

theorem validation_order:
  assumes "validateSitemapIndexAndFiles U E s w = (r, w')"
  shows "let indexFilePath = path_Join E (Dir s) ''sitemap_index.xml'' in
    (case verdict E w indexFilePath True of
       Some err \<Rightarrow> r = Some err \<and> reads w' = reads w @ [indexFilePath]
     | None \<Rightarrow>
        (\<exists>indexData. fileContent E w indexFilePath = Some indexData \<and>
          (case UnmarshalIndex E indexData of
             None \<Rightarrow> r = Some UnmarshalError \<and> reads w' = reads w @ [indexFilePath, indexFilePath]
           | Some index \<Rightarrow>
               r = firstFailure U E s w (ix_Sitemaps index) \<and>
               reads w' = reads w @ [indexFilePath, indexFilePath] @
                 List.map_filter (shardPath U E s) (examined U E s w (ix_Sitemaps index)))))"
proof -
  let ?idx = "path_Join E (Dir s) ''sitemap_index.xml''"
  let ?w1 = "w\<lparr>reads := reads w @ [?idx]\<rparr>"
  let ?w2 = "w\<lparr>reads := reads w @ [?idx, ?idx]\<rparr>"
  show ?thesis
  proof (cases "verdict E w ?idx True")
    case (Some err)
    have "validateSitemapIndexAndFiles U E s w = (Some err, ?w1)"
      by (simp add: validateSitemapIndexAndFiles_def validateXMLFile_verdict Let_def Some)
    then show ?thesis using assms by (simp add: Let_def Some)
  next
    case None
    then obtain indexData where d: "fileContent E w ?idx = Some indexData" and rf: "\<not> readFails E ?idx"
      by (auto simp: verdict_def validateXMLFile_def os_ReadFile_def Let_def
            split: option.splits if_splits)
    have rd: "os_ReadFile E ?w1 ?idx = (Some indexData, ?w2)"
      using d rf by (simp add: os_ReadFile_def fileContent_def)
    have ff: "firstFailure U E s ?w2 = firstFailure U E s w"
      by (rule ext, rule firstFailure_written) simp
    have ex: "examined U E s ?w2 = examined U E s w"
      by (rule ext, rule examined_written) simp
    show ?thesis
    proof (cases "UnmarshalIndex E indexData")
      case un: None
      have "validateSitemapIndexAndFiles U E s w = (Some UnmarshalError, ?w2)"
        by (simp add: validateSitemapIndexAndFiles_def validateXMLFile_verdict Let_def None rd un)
      then show ?thesis using assms by (simp add: Let_def None d un)
    next
      case (Some index)
      have "validateSitemapIndexAndFiles U E s w = validateEach U E s ?w2 (ix_Sitemaps index)"
        by (simp add: validateSitemapIndexAndFiles_def validateXMLFile_verdict Let_def None rd Some)
      then show ?thesis using assms
        by (simp add: Let_def None d Some validateEach_order ff ex)
    qed
  qed
qed

lemma prepareURLs_fields:
  "prepareURLs U s us = (r, us') \<Longrightarrow>
     map LastMod us' = map LastMod us \<and> map ChangeFreq us' = map ChangeFreq us \<and>
     map Priority us' = map Priority us"
  by (induction us arbitrary: r us') (auto split: sum.splits prod.splits)

lemma prepareURLs_all:
  "\<forall>u \<in> set us. \<exists>l. resolveURL U s (Loc u) = Inr l \<Longrightarrow>
     prepareURLs U s us = (None, map (\<lambda>u. u\<lparr>Loc := projr (resolveURL U s (Loc u))\<rparr>) us)"
  by (induction us) auto

lemma prepareURLs_fails:
  "\<exists>u \<in> set us. \<exists>e. resolveURL U s (Loc u) = Inl e \<Longrightarrow>
     \<exists>e us'. prepareURLs U s us = (Some e, us')"
proof (induction us)
  case Nil
  then show ?case by simp
next
  case (Cons u us)
  show ?case
  proof (cases "resolveURL U s (Loc u)")
    case (Inl e)
    then show ?thesis by simp
  next
    case (Inr l)
    with Cons.prems have "\<exists>u \<in> set us. \<exists>e. resolveURL U s (Loc u) = Inl e" by auto
    from Cons.IH [OF this] show ?thesis using Inr by auto
  qed
qed

lemma Write_unfold:
  "Write U E now s w b ss =
     (if dirMissing E (Dir s) \<and> mkdirFails E (Dir s)
      then (Some (MkdirError (Dir s)), s\<lparr>Stylesheet := ss\<rparr>, w)
      else
        (let w1 = (if dirMissing E (Dir s) then w\<lparr>dirs := dirs w @ [Dir s]\<rparr> else w)
         in case prepareURLs U s (URLs s) of
              (Some err, urls') \<Rightarrow> (Some err, s\<lparr>Stylesheet := ss, URLs := urls'\<rparr>, w1)
            | (None, urls') \<Rightarrow>
                (let s2 = s\<lparr>Stylesheet := ss, URLs := urls'\<rparr>
                 in if int (length (URLs s)) \<le> MaxURLs s then
                      (case writeSitemapFile E s2 w1 ''sitemap.xml'' urls' of
                         (Some err, w2) \<Rightarrow> (Some err, s2, w2)
                       | (None, w2) \<Rightarrow>
                           (case validateXMLFile E w2 (path_Join E (Dir s) ''sitemap.xml'') False of
                              (r, w3) \<Rightarrow> (r, s2, w3)))
                    else
                      (case writeSitemapIndex U E now s2 w1 b of
                         (Some err, w2) \<Rightarrow> (Some err, s2, w2)
                       | (None, w2) \<Rightarrow>
                           (case validateSitemapIndexAndFiles U E s2 w2 of
                              (r, w3) \<Rightarrow> (r, s2, w3))))))"
proof -
  have p: "prepareURLs U (s\<lparr>Stylesheet := ss\<rparr>) (URLs s) = prepareURLs U s (URLs s)"
    by (rule prepareURLs_frame) simp
  obtain pr urls' where q: "prepareURLs U s (URLs s) = (pr, urls')"
    by (cases "prepareURLs U s (URLs s)") auto
  have len: "length urls' = length (URLs s)" using prepareURLs_length [OF q] .
  show ?thesis
    by (cases pr) (auto simp: Write_def Let_def os_MkdirAll_def p q len split: prod.splits option.splits)
qed

lemma Write_written_prepared:
  assumes "Write U E now s w b ss = (r, s', w')" and "written w' \<noteq> written w"
  shows "prepareURLs U s (URLs s) = (None, URLs s')"
proof -
  obtain pr urls' where q: "prepareURLs U s (URLs s) = (pr, urls')"
    by (cases "prepareURLs U s (URLs s)") auto
  show ?thesis
    using assms q
    by (cases pr) (auto simp: Write_unfold Let_def split: if_splits prod.splits option.splits)
qed


lemma Write_resolved:
  assumes W: "Write U E now s w b ss = (r, s', w')" and g: "generated r \<or> written w' \<noteq> written w"
  shows "URLs s' = map (\<lambda>u. u\<lparr>Loc := projr (resolveURL U s (Loc u))\<rparr>) (URLs s)"
proof -
  have "prepareURLs U s (URLs s) = (None, URLs s')"
    using g Write_generated [OF W] Write_written_prepared [OF W] by blast
  then show ?thesis using prepareURLs_None by blast
qed

lemma Write_fields:
  assumes W: "Write U E now s w b ss = (r, s', w')"
  shows "map LastMod (URLs s') = map LastMod (URLs s) \<and>
         map ChangeFreq (URLs s') = map ChangeFreq (URLs s) \<and>
         map Priority (URLs s') = map Priority (URLs s)"
proof -
  obtain pr urls' where q: "prepareURLs U s (URLs s) = (pr, urls')"
    by (cases "prepareURLs U s (URLs s)") auto
  have "URLs s' = URLs s \<or> URLs s' = urls'"
    using W q
    by (cases pr) (auto simp: Write_unfold Let_def split: if_splits prod.splits option.splits)
  then show ?thesis using prepareURLs_fields [OF q] by auto
qed

text \<open>
  C10. \<open>Write\<close> changes the stored entries in place. Whatever it returns, the list keeps
  its length and every entry keeps its \<open>LastMod\<close>, \<open>ChangeFreq\<close> and \<open>Priority\<close>. If
  anything is written, or the generation completes, then before that every \<open>Loc\<close> was
  replaced by its resolution against the base URL. So a second \<open>Write\<close> on the same
  options resolves the locations that the first one stored, not the original ones.
\<close>

theorem Write_mutates:
  assumes W: "Write U E now s w baseSitemapURL stylesheetURL = (r, s', w')"
  shows "length (URLs s') = length (URLs s) \<and>
    map LastMod (URLs s') = map LastMod (URLs s) \<and>
    map ChangeFreq (URLs s') = map ChangeFreq (URLs s) \<and>
    map Priority (URLs s') = map Priority (URLs s) \<and>
    (generated r \<or> written w' \<noteq> written w \<longrightarrow>
       URLs s' = map (\<lambda>u. u\<lparr>Loc := projr (resolveURL U s (Loc u))\<rparr>) (URLs s) \<and>
       (\<forall>E2 now2 w2 base2 stylesheet2 r2 s'' w''.
          Write U E2 now2 s' w2 base2 stylesheet2 = (r2, s'', w'') \<and>
          (generated r2 \<or> written w'' \<noteq> written w2) \<longrightarrow>
          URLs s'' =
            map (\<lambda>u. u\<lparr>Loc := projr (resolveURL U s (projr (resolveURL U s (Loc u))))\<rparr>) (URLs s)))"
proof (intro conjI impI allI)
  show "length (URLs s') = length (URLs s)" using Write_frame [OF W] by simp
  show "map LastMod (URLs s') = map LastMod (URLs s)"
    "map ChangeFreq (URLs s') = map ChangeFreq (URLs s)"
    "map Priority (URLs s') = map Priority (URLs s)"
    using Write_fields [OF W] by simp_all
next
  assume g: "generated r \<or> written w' \<noteq> written w"
  show 1: "URLs s' = map (\<lambda>u. u\<lparr>Loc := projr (resolveURL U s (Loc u))\<rparr>) (URLs s)"
    using Write_resolved [OF W g] .
  fix E2 now2 w2 base2 stylesheet2 r2 s'' w''
  assume "Write U E2 now2 s' w2 base2 stylesheet2 = (r2, s'', w'') \<and>
          (generated r2 \<or> written w'' \<noteq> written w2)"
  then have "URLs s'' = map (\<lambda>u. u\<lparr>Loc := projr (resolveURL U s' (Loc u))\<rparr>) (URLs s')"
    using Write_resolved by blast
  moreover have "resolveURL U s' = resolveURL U s"
    using Write_frame [OF W] by (intro ext resolveURL_frame) simp
  ultimately show "URLs s'' =
      map (\<lambda>u. u\<lparr>Loc := projr (resolveURL U s (projr (resolveURL U s (Loc u))))\<rparr>) (URLs s)"
    unfolding 1 by (simp add: comp_def)
qed

text \<open>
  C6, as amended. Let the output directory exist or be created. If some entry's location
  cannot be parsed, or there is at least one entry and the base URL cannot be parsed,
  then \<open>Write\<close> returns the parse error and has written and read no file. (With no entry
  at all nothing is resolved, and the base URL is never parsed.)
\<close>

theorem Write_malformed:
  assumes dir: "dirReady E s"
    and bad: "(url_Parse U (BaseURL s) = None \<and> URLs s \<noteq> []) \<or>
              (\<exists>u \<in> set (URLs s). url_Parse U (Loc u) = None)"
    and W: "Write U E now s w baseSitemapURL stylesheetURL = (r, s', w')"
  shows "(\<exists>x. r = Some (UrlError x)) \<and> written w' = written w \<and> reads w' = reads w"
proof -
  have "\<exists>u \<in> set (URLs s). \<exists>e. resolveURL U s (Loc u) = Inl e"
  proof (cases "url_Parse U (BaseURL s)")
    case None
    with bad obtain u where u: "u \<in> set (URLs s)" by (cases "URLs s") auto
    have "resolveURL U s (Loc u) = Inl (UrlError (BaseURL s))"
      using None by (simp add: resolveURL_def)
    then show ?thesis using u by blast
  next
    case (Some base)
    with bad obtain u where u: "u \<in> set (URLs s)" "url_Parse U (Loc u) = None" by auto
    have "resolveURL U s (Loc u) = Inl (UrlError (Loc u))"
      using Some u(2) by (simp add: resolveURL_def)
    then show ?thesis using u(1) by blast
  qed
  from prepareURLs_fails [OF this] obtain e us' where
    p: "prepareURLs U s (URLs s) = (Some e, us')" by blast
  from prepareURLs_error [OF p] obtain x where e: "e = UrlError x" by blast
  show ?thesis
    using W dir p e by (auto simp: Write_unfold dirReady_def Let_def split: if_splits)
qed

lemma digitChar_digit: "k < 10 \<Longrightarrow> isDigitChar (digitChar k) \<and> digitVal (digitChar k) = k"
proof -
  assume "k < 10"
  then have "k = 0 \<or> k = 1 \<or> k = 2 \<or> k = 3 \<or> k = 4 \<or> k = 5 \<or> k = 6 \<or> k = 7 \<or> k = 8 \<or> k = 9"
    by arith
  then show ?thesis
    by (elim disjE) (simp_all add: digitChar_def isDigitChar_def digitVal_def)
qed

lemma digitChar_not_dash: "k < 10 \<Longrightarrow> digitChar k \<noteq> CHR ''-''"
  using digitChar_digit [of k] isDigitChar_not_sign by blast

lemma decimal_1: "n < 10 \<Longrightarrow> decimal n = [digitChar n]"
  by (simp add: decimal.simps)

lemma decimal_2: "10 \<le> n \<Longrightarrow> n < 100 \<Longrightarrow> decimal n = [digitChar (n div 10), digitChar (n mod 10)]"
  by (subst decimal.simps) (simp add: decimal_1)

lemma div_100: "(n::nat) div 100 = n div 10 div 10"
  using div_mult2_eq [of n 10 10] by simp

lemma div_1000: "(n::nat) div 1000 = n div 10 div 10 div 10"
  using div_mult2_eq [of n 100 10] by (simp add: div_100)

lemma decimal_3:
  assumes "100 \<le> n" and "n < 1000"
  shows "decimal n = [digitChar (n div 100), digitChar (n div 10 mod 10), digitChar (n mod 10)]"
proof -
  have "decimal n = decimal (n div 10) @ [digitChar (n mod 10)]"
    using assms by (subst decimal.simps) simp
  moreover have "decimal (n div 10) = [digitChar (n div 10 div 10), digitChar (n div 10 mod 10)]"
    using assms by (intro decimal_2) simp_all
  ultimately show ?thesis by (simp add: div_100)
qed

lemma decimal_4:
  assumes "1000 \<le> n" and "n < 10000"
  shows "decimal n = [digitChar (n div 1000), digitChar (n div 100 mod 10),
                  digitChar (n div 10 mod 10), digitChar (n mod 10)]"
proof -
  have "decimal n = decimal (n div 10) @ [digitChar (n mod 10)]"
    using assms by (subst decimal.simps) simp
  moreover have "decimal (n div 10) =
      [digitChar (n div 10 div 100), digitChar (n div 10 div 10 mod 10), digitChar (n div 10 mod 10)]"
    using assms by (intro decimal_3) simp_all
  ultimately show ?thesis by (simp add: div_100 div_1000)
qed

lemma appendInt_2:
  "n < 100 \<Longrightarrow> appendInt (int n) 2 = [digitChar (n div 10), digitChar (n mod 10)]"
  by (cases "n < 10") (simp_all add: appendInt_def decimal_1 decimal_2 digitChar_def)

lemma replicate_zeros:
  "replicate 3 c = [c, c, c]" "replicate 2 c = [c, c]" "replicate (Suc 0) c = [c]"
  by (simp_all add: numeral_3_eq_3 numeral_2_eq_2)

lemma appendInt_4:
  assumes "n < 10000"
  shows "appendInt (int n) 4 =
     [digitChar (n div 1000), digitChar (n div 100 mod 10),
      digitChar (n div 10 mod 10), digitChar (n mod 10)]"
proof -
  consider "n < 10" | "10 \<le> n" "n < 100" | "100 \<le> n" "n < 1000" | "1000 \<le> n" "n < 10000"
    using assms by linarith
  then show ?thesis
  proof cases
    case 1
    then show ?thesis by (simp add: appendInt_def decimal_1 digitChar_def replicate_zeros)
  next
    case 2
    then show ?thesis by (simp add: appendInt_def decimal_2 digitChar_def replicate_zeros)
  next
    case 3
    then show ?thesis by (simp add: appendInt_def decimal_3 digitChar_def replicate_zeros)
  next
    case 4
    then show ?thesis by (simp add: appendInt_def decimal_4)
  qed
qed

lemma calendar_date_Format:
  assumes "validNow t"
  shows "calendar_date (Format t) = Some (Year t, Month t, Day t)"
proof -
  define y where "y = nat (Year t)"
  have y: "Year t = int y" "y < 10000" using assms by (auto simp: validNow_def y_def)
  have m: "Month t < 100" "1 \<le> Month t" "Month t \<le> 12" using assms by (simp_all add: validNow_def)
  have dm: "daysIn (Month t) (Year t) \<le> 31"
  proof -
    have "Month t = 1 \<or> Month t = 2 \<or> Month t = 3 \<or> Month t = 4 \<or> Month t = 5 \<or>
        Month t = 6 \<or> Month t = 7 \<or> Month t = 8 \<or> Month t = 9 \<or> Month t = 10 \<or>
        Month t = 11 \<or> Month t = 12" using m by arith
    then show ?thesis by (elim disjE) (simp_all add: daysIn_def)
  qed
  have d: "Day t < 100" "1 \<le> Day t" "Day t \<le> daysIn (Month t) (Year t)"
    using assms dm by (simp_all add: validNow_def)
  have F: "Format t =
    [digitChar (y div 1000), digitChar (y div 100 mod 10), digitChar (y div 10 mod 10), digitChar (y mod 10),
     CHR ''-'', digitChar (Month t div 10), digitChar (Month t mod 10),
     CHR ''-'', digitChar (Day t div 10), digitChar (Day t mod 10)]"
    unfolding Format_def y(1) appendInt_4 [OF y(2)] appendInt_2 [OF m(1)] appendInt_2 [OF d(1)]
    by simp
  have dg: "y div 1000 < 10" "y div 100 mod 10 < 10" "y div 10 mod 10 < 10" "y mod 10 < 10"
    "Month t div 10 < 10" "Month t mod 10 < 10" "Day t div 10 < 10" "Day t mod 10 < 10"
    using y(2) m(1) d(1) by simp_all
  have e1: "y = y div 10 * 10 + y mod 10" by simp
  have e2: "y div 10 = y div 100 * 10 + y div 10 mod 10"
    using div_mult_mod_eq [of "y div 10" 10] by (simp add: div_100)
  have e3: "y div 100 = y div 1000 * 10 + y div 100 mod 10"
    using div_mult_mod_eq [of "y div 10 div 10" 10] by (simp add: div_100 div_1000)
  have yv: "y div 1000 * 1000 + y div 100 mod 10 * 100 + y div 10 mod 10 * 10 + y mod 10 = y"
    using e1 e2 e3 by linarith
  have mv: "Month t div 10 * 10 + Month t mod 10 = Month t" by simp
  have dv: "Day t div 10 * 10 + Day t mod 10 = Day t" by simp
  show ?thesis
    unfolding F
    using m d
    by (simp add: digitChar_digit [OF dg(1)] digitChar_digit [OF dg(2)] digitChar_digit [OF dg(3)]
          digitChar_digit [OF dg(4)] digitChar_digit [OF dg(5)] digitChar_digit [OF dg(6)]
          digitChar_digit [OF dg(7)] digitChar_digit [OF dg(8)] yv mv dv y(1) Let_def)
qed

lemma spec_lastModified_valid:
  "validNow now \<Longrightarrow> \<exists>d. calendar_date (spec_lastModified now lm) = Some d"
  by (auto simp: spec_lastModified_def calendar_date_Format split: option.splits)

lemma AddURL_datesValid: "datesValid s \<Longrightarrow> validNow now \<Longrightarrow> datesValid (AddURL now s url)"
  using spec_lastModified_valid [of now "LastMod url"]
  by (auto simp: datesValid_def AddURL_spec)

lemma AddURLs_datesValid:
  "datesValid s \<Longrightarrow> (\<And>k. validNow (clock k)) \<Longrightarrow> datesValid (AddURLs clock s urls)"
proof (induction urls arbitrary: s clock)
  case Nil
  then show ?case by simp
next
  case (Cons u urls)
  show ?case
    using Cons.IH [of "AddURL (clock 0) s u" "\<lambda>k. clock (Suc k)"] Cons.prems
    by (simp add: AddURL_datesValid)
qed

lemma collected_datesValid: "collected s \<Longrightarrow> datesValid s"
proof (induction rule: collected.induct)
  case (new dir baseURL)
  show ?case by (simp add: datesValid_def NewSitemapOptions_def)
next
  case (add s now url)
  then show ?case by (simp add: AddURL_datesValid)
next
  case (adds s clock urls)
  then show ?case by (simp add: AddURLs_datesValid)
qed


text \<open>
  C9, as amended. After any sequence of \<open>AddURL\<close> and \<open>AddURLs\<close> calls (with clock
  readings that are calendar dates with a four-digit year), every stored entry has a
  \<open>LastMod\<close> that is a calendar date, when \<open>Write\<close> is invoked and when it returns.
  \<open>AddURL\<close> does not look at the location. \<open>Write\<close> resolves every location before it
  writes: if any file is written, every stored location did resolve and has been replaced
  by its resolution.
\<close>

theorem collected_entries:
  assumes c: "collected s"
    and W: "Write U E now s w baseSitemapURL stylesheetURL = (r, s', w')"
  shows "(\<forall>u \<in> set (URLs s). \<exists>d. calendar_date (LastMod u) = Some d) \<and>
    (\<forall>u \<in> set (URLs s'). \<exists>d. calendar_date (LastMod u) = Some d) \<and>
    (written w' \<noteq> written w \<longrightarrow>
       (\<forall>u \<in> set (URLs s). \<exists>l. resolveURL U s (Loc u) = Inr l) \<and>
       URLs s' = map (\<lambda>u. u\<lparr>Loc := projr (resolveURL U s (Loc u))\<rparr>) (URLs s))"
proof -
  have 1: "\<forall>u \<in> set (URLs s). \<exists>d. calendar_date (LastMod u) = Some d"
    using collected_datesValid [OF c] by (auto simp: datesValid_def list_all_iff)
  have "set (map LastMod (URLs s')) = set (map LastMod (URLs s))"
    using Write_fields [OF W] by simp
  then have 2: "\<forall>u \<in> set (URLs s'). \<exists>d. calendar_date (LastMod u) = Some d"
    using 1 by (metis (no_types, lifting) image_iff list.set_map)
  have 3: "(\<forall>u \<in> set (URLs s). \<exists>l. resolveURL U s (Loc u) = Inr l) \<and>
       URLs s' = map (\<lambda>u. u\<lparr>Loc := projr (resolveURL U s (Loc u))\<rparr>) (URLs s)"
    if "written w' \<noteq> written w"
    using prepareURLs_None [OF Write_written_prepared [OF W that]] by simp
  show ?thesis using 1 2 3 by blast
qed

end
